theory Spec2Isabelle
  imports Main
begin

section \<open>Data model of \<open>pkg/cli/admin/release/extract.go\<close>\<close>

text \<open>
  A tag of the release image stream: its name and its annotations. A Go map read of a
  missing key yields the empty string, which \<open>annotation\<close> writes out.
\<close>

record TagReference =
  Name :: string
  Annotations :: "string \<rightharpoonup> string"

definition annotation :: "TagReference \<Rightarrow> string \<Rightarrow> string" where
  "annotation ref k = (case Annotations ref k of None \<Rightarrow> [] | Some v \<Rightarrow> v)"

text \<open>
  Errors returned by \<open>Run\<close> and \<open>extractGit\<close>. \<open>ErrExit\<close> is \<open>kcmdutil.ErrExit\<close>;
  \<open>External\<close> carries an error handed back by a collaborator (directory creation,
  reference parsing, release loading, the image extractor, \<open>io.Copy\<close>).
\<close>

datatype error =
    OnlyOneSource
  | MustSpecifyFrom
  | ToAndFile
  | NotContained string
  | FailedContentVerification
  | ErrExit
  | External string

text \<open>
  Lines written by this file, one constructor per format string:
  \<open>WarnNoSourceInfo n\<close> is \<open>warning: Tag n has no source info\<close> on the error stream and
  \<open>InfoNoSourceInfo n\<close> the same text through \<open>klog.Infof\<close>;
  \<open>WarnDifferentCommits r\<close> is \<open>warning: Repo r referenced more than once with different
  commits, only checking out the first reference\<close>;
  \<open>ErrorCloning r e b\<close> is \<open>error: cloning r: e\<close> followed by the buffer \<open>b\<close>;
  \<open>ErrorCheckingOut r e b\<close> is \<open>error: checking out commit for r: e\<close> followed by \<open>b\<close>;
  \<open>RepoPath p\<close> is the path of a checked out repository on standard output;
  \<open>ExtractedCreated t\<close> and \<open>ExtractedFromDigest d t\<close> are the two
  \<open>Extracted release payload ...\<close> lines on standard output;
  \<open>WarnError e\<close> is \<open>warning: e\<close> on the error stream;
  \<open>FileContent c\<close> is the bytes of the requested file copied to standard output.
\<close>

datatype message =
    WarnNoSourceInfo string
  | InfoNoSourceInfo string
  | WarnDifferentCommits string
  | ErrorCloning string string string
  | ErrorCheckingOut string string string
  | RepoPath string
  | ExtractedCreated string
  | ExtractedFromDigest string string
  | WarnError error
  | FileContent string

text \<open>
  What \<open>extractGit\<close> takes from outside this file. The two annotation keys are package
  constants declared elsewhere; \<open>klogV2\<close> is the value of \<open>klog.V(2)\<close>;
  \<open>mkdirAll\<close> is \<open>os.MkdirAll\<close>; \<open>loadReleaseInfo\<close> yields the tags of the release;
  \<open>ensureCloneForRepo dir repo\<close> yields the error text and the captured output, or the
  path of the clone; \<open>checkoutCommit path repo commit\<close> yields the error text, if any.
\<close>

record environment =
  annotationBuildSourceLocation :: string
  annotationBuildSourceCommit :: string
  klogV2 :: bool
  mkdirAll :: "string \<Rightarrow> error option"
  loadReleaseInfo :: "string \<Rightarrow> error + TagReference list"
  ensureCloneForRepo :: "string \<Rightarrow> string \<Rightarrow> (string \<times> string) + string"
  checkoutCommit :: "string \<Rightarrow> string \<Rightarrow> string \<Rightarrow> string option"

text \<open>A checkout task is the closure handed to \<open>w.Parallel\<close>: it captures \<open>repo\<close> and \<open>commit\<close>.\<close>

type_synonym task = "string \<times> string"

text \<open>
  The shared effects a running task still has to perform: the \<open>once.Do\<close> that sets
  \<open>hadErrors\<close>, a line on the error stream, a line on standard output.
\<close>

datatype action = OnceSetHadErrors | WriteErrOut message | WriteOut message

text \<open>
  The variables of \<open>extractGit\<close> and of the work queue it drives. \<open>submitted\<close>
  lists every call of \<open>w.Parallel\<close> in order; \<open>queued\<close> are the submitted tasks no worker
  has taken; \<open>running\<close> are the tasks a worker is executing, each with the effects it has
  left; \<open>flagWrites\<close> counts the executions of the assignment \<open>hadErrors = true\<close>.
\<close>

record state =
  alreadyExtracted :: "string \<rightharpoonup> string"
  hadErrors :: bool
  onceDone :: bool
  flagWrites :: nat
  out :: "message list"
  errOut :: "message list"
  klog :: "message list"
  submitted :: "task list"
  queued :: "task list"
  running :: "(task \<times> action list) list"
  maxParallel :: nat

section \<open>The planning loop of \<open>extractGit\<close>\<close>

text \<open>
  Modelled from the spec: \<open>w.Parallel\<close> of the work queue package, which is not part of
  this file. Submitting returns at once and the task waits in the queue.
\<close>

definition Parallel :: "task \<Rightarrow> state \<Rightarrow> state" where
  "Parallel t s = s\<lparr>submitted := submitted s @ [t], queued := queued s @ [t]\<rparr>"

text \<open>One iteration of the loop over the tags (lines 266 to 303).\<close>

definition loop_body :: "environment \<Rightarrow> TagReference \<Rightarrow> state \<Rightarrow> state" where
  "loop_body e ref s =
     (let repo = annotation ref (annotationBuildSourceLocation e);
          commit = annotation ref (annotationBuildSourceCommit e)
      in if length repo = 0 \<or> length commit = 0 then
           (if klogV2 e then s\<lparr>klog := klog s @ [InfoNoSourceInfo (Name ref)]\<rparr>
            else s\<lparr>errOut := errOut s @ [WarnNoSourceInfo (Name ref)]\<rparr>)
         else
           (case alreadyExtracted s repo of
              Some oldCommit \<Rightarrow>
                (if oldCommit \<noteq> commit then s\<lparr>errOut := errOut s @ [WarnDifferentCommits repo]\<rparr>
                 else s)
            | None \<Rightarrow> Parallel (repo, commit) (s\<lparr>alreadyExtracted := (alreadyExtracted s)(repo \<mapsto> commit)\<rparr>)))"

text \<open>The whole loop, run on its own: the function \<open>Batch\<close> is given.\<close>

fun producer :: "environment \<Rightarrow> TagReference list \<Rightarrow> state \<Rightarrow> state" where
  "producer e [] s = s"
| "producer e (ref # refs) s = producer e refs (loop_body e ref s)"

text \<open>The state at line 264, after \<open>workqueue.New(8, ctx.Done())\<close>.\<close>

definition init :: state where
  "init = \<lparr>alreadyExtracted = Map.empty, hadErrors = False, onceDone = False,
     flagWrites = 0, out = [], errOut = [], klog = [],
     submitted = [], queued = [], running = [], maxParallel = 8\<rparr>"

text \<open>Vocabulary of the claims about planning.\<close>

definition repo_of :: "environment \<Rightarrow> TagReference \<Rightarrow> string" where
  "repo_of e ref = annotation ref (annotationBuildSourceLocation e)"

definition commit_of :: "environment \<Rightarrow> TagReference \<Rightarrow> string" where
  "commit_of e ref = annotation ref (annotationBuildSourceCommit e)"

definition has_source :: "environment \<Rightarrow> TagReference \<Rightarrow> bool" where
  "has_source e ref \<longleftrightarrow> repo_of e ref \<noteq> [] \<and> commit_of e ref \<noteq> []"

definition sources :: "environment \<Rightarrow> TagReference list \<Rightarrow> task list" where
  "sources e refs = map (\<lambda>ref. (repo_of e ref, commit_of e ref)) (filter (has_source e) refs)"

fun first_per_repo :: "string set \<Rightarrow> task list \<Rightarrow> task list" where
  "first_per_repo seen [] = []"
| "first_per_repo seen ((r, c) # ts) =
     (if r \<in> seen then first_per_repo seen ts else (r, c) # first_per_repo (insert r seen) ts)"

section \<open>The checkout tasks and the work queue\<close>

text \<open>
  The closure of lines 285 to 302, as the shared effects it performs in order. The clone
  and the checkout act on the file system only; the buffer is reset before the checkout,
  so the second error line carries an empty buffer.
\<close>

definition task_body :: "environment \<Rightarrow> string \<Rightarrow> task \<Rightarrow> action list" where
  "task_body e dir t =
     (case t of (repo, commit) \<Rightarrow>
        (case ensureCloneForRepo e dir repo of
           Inl (err, buf) \<Rightarrow> [OnceSetHadErrors, WriteErrOut (ErrorCloning repo err buf)]
         | Inr path \<Rightarrow>
             (case checkoutCommit e path repo commit of
                Some err \<Rightarrow> [OnceSetHadErrors, WriteErrOut (ErrorCheckingOut repo err [])]
              | None \<Rightarrow> [WriteOut (RepoPath path)])))"

text \<open>\<open>once.Do(func() { hadErrors = true })\<close> runs the assignment on its first call only.\<close>

fun perform :: "action \<Rightarrow> state \<Rightarrow> state" where
  "perform OnceSetHadErrors s =
     (if onceDone s then s
      else s\<lparr>hadErrors := True, flagWrites := Suc (flagWrites s), onceDone := True\<rparr>)"
| "perform (WriteErrOut m) s = s\<lparr>errOut := errOut s @ [m]\<rparr>"
| "perform (WriteOut m) s = s\<lparr>out := out s @ [m]\<rparr>"

text \<open>
  Modelled from the spec: \<open>Batch\<close> of the work queue package, which is not part of this
  file. The function given to \<open>Batch\<close> runs on the calling thread; a submitted task waits
  until a worker is free; at most \<open>maxParallel\<close> tasks run at a time, in any interleaving;
  \<open>Batch\<close> returns when the function has returned and every submitted task has completed.
  A configuration is the tags the loop has not reached yet, with the state. A schedule
  chooses who moves next: \<open>Produce\<close> is one iteration of the loop on the calling thread,
  \<open>Start\<close> hands the oldest queued task to a free worker, \<open>Work i\<close> lets the \<open>i\<close>-th
  running task perform its next effect, or return when it has none left. A choice that is
  not enabled yields \<open>None\<close>. The cancellation signal of \<open>extractGit\<close> fires only when
  \<open>extractGit\<close> returns, so no step models it.
\<close>

datatype choice = Produce | Start | Work nat

type_synonym conf = "TagReference list \<times> state"

text \<open>
  Modelled from the spec: one move of the batch, the work queue package not being part of
  this file. The \<open>Produce\<close> case is the loop body of \<open>extractGit\<close>, the \<open>Work\<close> case
  performs the effects of its task closure.
\<close>

fun step :: "environment \<Rightarrow> string \<Rightarrow> choice \<Rightarrow> conf \<Rightarrow> conf option" where
  "step e dir Produce (refs, s) =
     (case refs of [] \<Rightarrow> None | ref # rest \<Rightarrow> Some (rest, loop_body e ref s))"
| "step e dir Start (refs, s) =
     (case queued s of
        [] \<Rightarrow> None
      | t # q \<Rightarrow>
          if length (running s) < maxParallel s
          then Some (refs, s\<lparr>queued := q, running := running s @ [(t, task_body e dir t)]\<rparr>)
          else None)"
| "step e dir (Work i) (refs, s) =
     (if i < length (running s) then
        (case running s ! i of
           (t, []) \<Rightarrow> Some (refs, s\<lparr>running := take i (running s) @ drop (Suc i) (running s)\<rparr>)
         | (t, a # as) \<Rightarrow> Some (refs, (perform a s)\<lparr>running := (running s)[i := (t, as)]\<rparr>))
      else None)"

fun exec :: "environment \<Rightarrow> string \<Rightarrow> choice list \<Rightarrow> conf \<Rightarrow> conf option" where
  "exec e dir [] c = Some c"
| "exec e dir (x # xs) c = (case step e dir x c of None \<Rightarrow> None | Some c' \<Rightarrow> exec e dir xs c')"

definition batch_done :: "conf \<Rightarrow> bool" where
  "batch_done c \<longleftrightarrow> fst c = [] \<and> queued (snd c) = [] \<and> running (snd c) = []"

text \<open>
  \<open>extractGit\<close> under a schedule: \<open>None\<close> when the schedule is not a complete run of the
  batch, \<open>SetupFailed\<close> when the directory or the release could not be had, otherwise the
  state at the return of \<open>Batch\<close> with the value returned (lines 305 to 308).
\<close>

datatype git_result = SetupFailed error | BatchReturned state "error option"

definition extractGit :: "environment \<Rightarrow> string \<Rightarrow> string \<Rightarrow> choice list \<Rightarrow> git_result option" where
  "extractGit e from dir sched =
     (case mkdirAll e dir of
        Some err \<Rightarrow> Some (SetupFailed err)
      | None \<Rightarrow>
          (case loadReleaseInfo e from of
             Inl err \<Rightarrow> Some (SetupFailed err)
           | Inr refs \<Rightarrow>
               (case exec e dir sched (refs, init) of
                  None \<Rightarrow> None
                | Some c \<Rightarrow>
                    if batch_done c
                    then Some (BatchReturned (snd c) (if hadErrors (snd c) then Some ErrExit else None))
                    else None)))"

text \<open>Vocabulary of the claims about the batch.\<close>

definition task_fails :: "environment \<Rightarrow> string \<Rightarrow> task \<Rightarrow> bool" where
  "task_fails e dir t =
     (case ensureCloneForRepo e dir (fst t) of
        Inl failure \<Rightarrow> True
      | Inr path \<Rightarrow> checkoutCommit e path (fst t) (snd t) \<noteq> None)"

definition reflected :: "action \<Rightarrow> state \<Rightarrow> bool" where
  "reflected a s =
     (case a of
        OnceSetHadErrors \<Rightarrow> hadErrors s
      | WriteErrOut m \<Rightarrow> m \<in> set (errOut s)
      | WriteOut m \<Rightarrow> m \<in> set (out s))"

fun names_repo :: "message \<Rightarrow> string \<Rightarrow> bool" where
  "names_repo (ErrorCloning r err buf) repo = (r = repo)"
| "names_repo (ErrorCheckingOut r err buf) repo = (r = repo)"
| "names_repo m repo = False"

definition weight :: "conf \<Rightarrow> nat" where
  "weight c = 5 * length (fst c) + 4 * length (queued (snd c))
     + sum_list (map (\<lambda>(t, as). Suc (length as)) (running (snd c)))"

section \<open>Invariants of the batch\<close>

text \<open>
  \<open>plan e m refs\<close> is the loop run alone from the map \<open>m\<close>; \<open>producer_line\<close> tells the
  lines the loop writes from those of the tasks. \<open>inv_flag\<close>: the guard has fired exactly
  when the flag is set, and the assignment ran once then. \<open>inv_bound\<close>: the workers.
  \<open>inv_origin\<close>: every queued or running task was submitted, a running task has a suffix
  of its body left, and the flag is set only by a task that fails. \<open>accounted\<close>: every
  effect of a submitted task has happened, or the task is still queued or has it left.
\<close>

definition plan :: "environment \<Rightarrow> (string \<rightharpoonup> string) \<Rightarrow> TagReference list \<Rightarrow> state" where
  "plan e m refs = producer e refs (init\<lparr>alreadyExtracted := m\<rparr>)"

fun producer_line :: "message \<Rightarrow> bool" where
  "producer_line (WarnNoSourceInfo n) = True"
| "producer_line (WarnDifferentCommits r) = True"
| "producer_line m = False"

definition inv_flag :: "state \<Rightarrow> bool" where
  "inv_flag s \<longleftrightarrow> onceDone s = hadErrors s \<and> flagWrites s = (if hadErrors s then 1 else 0)"

definition inv_bound :: "state \<Rightarrow> bool" where
  "inv_bound s \<longleftrightarrow> length (running s) \<le> maxParallel s \<and> maxParallel s = 8"

definition inv_origin :: "environment \<Rightarrow> string \<Rightarrow> state \<Rightarrow> bool" where
  "inv_origin e dir s \<longleftrightarrow>
     set (queued s) \<subseteq> set (submitted s)
     \<and> (\<forall>(t, as) \<in> set (running s). t \<in> set (submitted s) \<and> (\<exists>pre. task_body e dir t = pre @ as))
     \<and> (hadErrors s \<longrightarrow> (\<exists>t \<in> set (submitted s). OnceSetHadErrors \<in> set (task_body e dir t)))"

definition accounted :: "environment \<Rightarrow> string \<Rightarrow> state \<Rightarrow> bool" where
  "accounted e dir s \<longleftrightarrow>
     (\<forall>t \<in> set (submitted s). \<forall>a \<in> set (task_body e dir t).
        reflected a s \<or> t \<in> set (queued s) \<or> (\<exists>as. (t, as) \<in> set (running s) \<and> a \<in> set as))"

section \<open>A release and its surroundings, for the examples\<close>

text \<open>
  Four tags, two of them built from the same repository at the same commit and one
  without source annotations. Cloning \<open>R3\<close> fails and checking out the commit \<open>bad\<close> fails.
\<close>

definition tag :: "string \<Rightarrow> string \<Rightarrow> string \<Rightarrow> TagReference" where
  "tag n r c = \<lparr>Name = n, Annotations = [''source-location'' \<mapsto> r, ''commit.id'' \<mapsto> c]\<rparr>"

definition env0 :: "bool \<Rightarrow> TagReference list \<Rightarrow> environment" where
  "env0 v refs = \<lparr>annotationBuildSourceLocation = ''source-location'',
     annotationBuildSourceCommit = ''commit.id'',
     klogV2 = v,
     mkdirAll = (\<lambda>d. None),
     loadReleaseInfo = (\<lambda>from. Inr refs),
     ensureCloneForRepo = (\<lambda>d r. if r = ''R3'' then Inl (''exit status 128'', ''not found'') else Inr (d @ ''/'' @ r)),
     checkoutCommit = (\<lambda>p r c. if c = ''bad'' then Some ''exit status 1'' else None)\<rparr>"

definition tags0 :: "TagReference list" where
  "tags0 = [tag ''A'' ''R1'' ''C1'', tag ''B'' ''R1'' ''C1'', tag ''C'' ''R2'' ''C2'', tag ''D'' '''' '''']"

definition sched0 :: "choice list" where
  "sched0 = [Produce, Start, Produce, Produce, Start, Work 1, Work 0, Produce, Work 1, Work 0]"

text \<open>The state in which the batch of the example returns under \<open>sched0\<close>.\<close>

definition final0 :: state where
  "final0 = \<lparr>alreadyExtracted = [''R1'' \<mapsto> ''C1'', ''R2'' \<mapsto> ''C2''], hadErrors = False,
     onceDone = False, flagWrites = 0, out = [RepoPath ''src/R2'', RepoPath ''src/R1''],
     errOut = [WarnNoSourceInfo ''D''], klog = [],
     submitted = [(''R1'', ''C1''), (''R2'', ''C2'')], queued = [],
     running = [], maxParallel = 8\<rparr>"

definition batch_inv :: "environment \<Rightarrow> string \<Rightarrow> state \<Rightarrow> bool" where
  "batch_inv e dir s \<longleftrightarrow> inv_flag s \<and> inv_bound s \<and> inv_origin e dir s \<and> accounted e dir s"

definition tagsF :: "TagReference list" where
  "tagsF = [tag ''A'' ''R1'' ''bad'', tag ''E'' ''R3'' ''C3'', tag ''C'' ''R2'' ''C2'']"

definition schedF1 :: "choice list" where
  "schedF1 = [Produce, Produce, Produce, Start, Start, Start, Work (Suc 0)]"

definition schedF2 :: "choice list" where
  "schedF2 = [Work 0, Work 0, Work 0, Work 0, Work (Suc 0), Work 0, Work 0]"

definition midF :: state where
  "midF = \<lparr>alreadyExtracted = [''R1'' \<mapsto> ''bad'', ''R3'' \<mapsto> ''C3'', ''R2'' \<mapsto> ''C2''],
     hadErrors = True, onceDone = True, flagWrites = 1, out = [], errOut = [], klog = [],
     submitted = [(''R1'', ''bad''), (''R3'', ''C3''), (''R2'', ''C2'')], queued = [],
     running = [((''R1'', ''bad''), [OnceSetHadErrors, WriteErrOut (ErrorCheckingOut ''R1'' ''exit status 1'' [])]),
                ((''R3'', ''C3''), [WriteErrOut (ErrorCloning ''R3'' ''exit status 128'' ''not found'')]),
                ((''R2'', ''C2''), [WriteOut (RepoPath ''src/R2'')])],
     maxParallel = 8\<rparr>"

definition finalF :: state where
  "finalF = \<lparr>alreadyExtracted = [''R1'' \<mapsto> ''bad'', ''R3'' \<mapsto> ''C3'', ''R2'' \<mapsto> ''C2''],
     hadErrors = True, onceDone = True, flagWrites = 1, out = [RepoPath ''src/R2''],
     errOut = [ErrorCheckingOut ''R1'' ''exit status 1'' [],
               ErrorCloning ''R3'' ''exit status 128'' ''not found''],
     klog = [],
     submitted = [(''R1'', ''bad''), (''R3'', ''C3''), (''R2'', ''C2'')], queued = [],
     running = [], maxParallel = 8\<rparr>"

definition tags2 :: "TagReference list" where
  "tags2 = [tag ''A'' ''R1'' ''C1'', tag ''C'' ''R2'' ''C2'']"

definition started1 :: state where
  "started1 = \<lparr>alreadyExtracted = [''R1'' \<mapsto> ''C1''], hadErrors = False, onceDone = False,
     flagWrites = 0, out = [], errOut = [], klog = [],
     submitted = [(''R1'', ''C1'')], queued = [],
     running = [((''R1'', ''C1''), [WriteOut (RepoPath ''src/R1'')])], maxParallel = 8\<rparr>"

definition started2 :: state where
  "started2 = \<lparr>alreadyExtracted = [''R1'' \<mapsto> ''C1'', ''R2'' \<mapsto> ''C2''], hadErrors = False,
     onceDone = False, flagWrites = 0, out = [], errOut = [], klog = [],
     submitted = [(''R1'', ''C1''), (''R2'', ''C2'')], queued = [(''R2'', ''C2'')],
     running = [((''R1'', ''C1''), [WriteOut (RepoPath ''src/R1'')])], maxParallel = 8\<rparr>"

definition skipped1 :: state where
  "skipped1 = \<lparr>alreadyExtracted = Map.empty, hadErrors = False, onceDone = False,
     flagWrites = 0, out = [], errOut = [], klog = [InfoNoSourceInfo ''D''],
     submitted = [], queued = [], running = [], maxParallel = 8\<rparr>"

definition tagsC :: "TagReference list" where
  "tagsC = [tag ''A'' ''R1'' ''C1'', tag ''B'' ''R1'' ''C9'']"

definition schedC :: "choice list" where
  "schedC = [Produce, Produce, Start, Work 0, Work 0]"

definition tags3 :: "TagReference list" where
  "tags3 = [tag ''A'' ''R1'' ''C1'', tag ''B'' ''R1'' ''C1'', tag ''C'' ''R2'' ''C2'']"


definition finalC :: state where
  "finalC = \<lparr>alreadyExtracted = [''R1'' \<mapsto> ''C1''], hadErrors = False, onceDone = False,
     flagWrites = 0, out = [RepoPath ''src/R1''], errOut = [WarnDifferentCommits ''R1''], klog = [],
     submitted = [(''R1'', ''C1'')], queued = [], running = [], maxParallel = 8\<rparr>"


section \<open>\<open>Run\<close>: the release contents and the single file\<close>

text \<open>
  The fields of \<open>ExtractOptions\<close> that \<open>Run\<close> reads. \<open>SkipVerification\<close> is
  \<open>o.SecurityOptions.SkipVerification\<close>; \<open>ImageMetadataCallback\<close> tells whether the
  caller supplied a callback (it is not nil).
\<close>

record ExtractOptions =
  SkipVerification :: bool
  From :: string
  Tools :: bool
  Command :: string
  GitExtractDir :: string
  Directory :: string
  File :: string
  ImageMetadataCallback :: bool

text \<open>
  What the image extractor meets while it runs: the tar entries under
  \<open>release-manifests/\<close> in order, each with the bytes \<open>io.Copy\<close> reads or the error it
  returns; the calls it makes of the metadata callback, each with the declared digest,
  the digest of the content and the creation time of the config; and the error it
  returns itself, if any.
\<close>

record image =
  entries :: "(string \<times> (string + string)) list"
  metadata :: "(string \<times> string \<times> string) list"
  failure :: "string option"

text \<open>
  What \<open>Run\<close> takes from outside this file: \<open>os.MkdirAll\<close>,
  \<open>imagesource.ParseReference\<close> (yielding \<open>ref.Ref.ID\<close>), the image, and the three other
  modes, of which only the value they return matters here.
\<close>

record run_environment =
  osMkdirAll :: "string \<Rightarrow> string option"
  parseReference :: "string \<Rightarrow> string + string"
  release_image :: image
  git_flow :: "string \<Rightarrow> error option"
  tools_flow :: "error option"
  command_flow :: "string \<Rightarrow> error option"

text \<open>
  The content verifier of the image manifest package, which is not part of this file:
  \<open>Run\<close> is modelled for any implementation of its three operations.
\<close>

record 'v Verifier =
  NewVerifier :: 'v
  Verify :: "string \<Rightarrow> string \<Rightarrow> 'v \<Rightarrow> 'v"
  Verified :: "'v \<Rightarrow> bool"

text \<open>The state of a verifier as the spec describes it.\<close>

record VerificationState =
  declared :: string
  computed :: string
  matched :: bool

text \<open>
  Modelled from the spec: the verifier of the image manifest package. \<open>Verify\<close> records
  whether the declared and the computed digest are equal; \<open>Verified\<close> tells whether a
  matching call was ever recorded, and is false before any call.
\<close>

definition spec_verifier :: "VerificationState Verifier" where
  "spec_verifier = \<lparr>NewVerifier = \<lparr>declared = [], computed = [], matched = False\<rparr>,
     Verify = (\<lambda>d c v. \<lparr>declared = d, computed = c, matched = (matched v \<or> d = c)\<rparr>),
     Verified = matched\<rparr>"

text \<open>
  The local variables of \<open>Run\<close> its closures write, and its two streams;
  \<open>callbackCalls\<close> lists the calls of the caller's callback with the two digests.
\<close>

record run_state =
  found :: bool
  stdout :: "message list"
  stderr :: "message list"
  callbackCalls :: "(string \<times> string) list"

definition start_state :: run_state where
  "start_state = \<lparr>found = False, stdout = [], stderr = [], callbackCalls = []\<rparr>"

text \<open>The closure of lines 192 to 201: the pair returned, and the state.\<close>

definition TarEntryCallback ::
  "ExtractOptions \<Rightarrow> string \<Rightarrow> string + string \<Rightarrow> run_state \<Rightarrow> (bool \<times> error option) \<times> run_state" where
  "TarEntryCallback o' name r st =
     (if name \<noteq> File o' then ((True, None), st)
      else (case r of
              Inl err \<Rightarrow> ((False, Some (External err)), st)
            | Inr content \<Rightarrow>
                ((False, None), st\<lparr>stdout := stdout st @ [FileContent content], found := True\<rparr>)))"

text \<open>In single file mode the caller's callback, if any, is the callback of the extractor (lines 179 to 181).\<close>

definition file_callback :: "ExtractOptions \<Rightarrow> string \<Rightarrow> string \<Rightarrow> string \<Rightarrow> run_state \<Rightarrow> run_state" where
  "file_callback o' dgst contentDigest created st =
     (if ImageMetadataCallback o' then st\<lparr>callbackCalls := callbackCalls st @ [(dgst, contentDigest)]\<rparr>
      else st)"

text \<open>The closure of lines 221 to 231, on the verifier and the state.\<close>

definition default_callback ::
  "'v Verifier \<Rightarrow> ExtractOptions \<Rightarrow> string \<Rightarrow> string \<Rightarrow> string \<Rightarrow> string \<Rightarrow> 'v \<times> run_state \<Rightarrow> 'v \<times> run_state" where
  "default_callback vr o' refID dgst contentDigest created vs =
     (let v = Verify vr dgst contentDigest (fst vs);
          st = snd vs;
          st1 = (if ImageMetadataCallback o'
                 then st\<lparr>callbackCalls := callbackCalls st @ [(dgst, contentDigest)]\<rparr> else st)
      in if length refID > 0
         then (v, st1\<lparr>stdout := stdout st1 @ [ExtractedCreated created]\<rparr>)
         else (v, st1\<lparr>stdout := stdout st1 @ [ExtractedFromDigest dgst created]\<rparr>))"

text \<open>
  Modelled from the spec: \<open>Run\<close> of the image extractor, which is not part of this file.
  It hands every entry to the entry callback, if there is one, until the callback asks
  to stop or returns an error, which the extractor returns; it then makes its calls of
  the metadata callback and returns its own error, if any.
\<close>

fun scan :: "(string \<Rightarrow> string + string \<Rightarrow> 's \<Rightarrow> (bool \<times> error option) \<times> 's)
    \<Rightarrow> (string \<times> (string + string)) list \<Rightarrow> 's \<Rightarrow> error option \<times> 's" where
  "scan cb [] st = (None, st)"
| "scan cb ((name, r) # es) st =
     (case cb name r st of
        ((continue, Some err), st') \<Rightarrow> (Some err, st')
      | ((continue, None), st') \<Rightarrow> if continue then scan cb es st' else (None, st'))"

text \<open>
  Modelled from the spec: the extractor drives the entry callback with \<open>scan\<close>, then
  the metadata callback.
\<close>

definition extract_Run ::
  "(string \<Rightarrow> string + string \<Rightarrow> 's \<Rightarrow> (bool \<times> error option) \<times> 's) option
    \<Rightarrow> (string \<Rightarrow> string \<Rightarrow> string \<Rightarrow> 's \<Rightarrow> 's) \<Rightarrow> image \<Rightarrow> 's \<Rightarrow> error option \<times> 's" where
  "extract_Run tarCallback metadataCallback img st =
     (case (case tarCallback of None \<Rightarrow> (None, st) | Some cb \<Rightarrow> scan cb (entries img) st) of
        (Some err, st1) \<Rightarrow> (Some err, st1)
      | (None, st1) \<Rightarrow>
          (map_option External (failure img),
           fold (\<lambda>(d, c, t). metadataCallback d c t) (metadata img) st1))"

text \<open>The case \<open>len(o.File) > 0\<close> (lines 178 to 208).\<close>

definition Run_file :: "run_environment \<Rightarrow> ExtractOptions \<Rightarrow> error option \<times> run_state" where
  "Run_file e o' =
     (case extract_Run (Some (TarEntryCallback o')) (file_callback o') (release_image e) start_state of
        (Some err, st) \<Rightarrow> (Some err, st)
      | (None, st) \<Rightarrow> if \<not> found st then (Some (NotContained (File o')), st) else (None, st))"

text \<open>The default case (lines 210 to 243).\<close>

definition Run_default ::
  "'v Verifier \<Rightarrow> run_environment \<Rightarrow> ExtractOptions \<Rightarrow> string \<Rightarrow> error option \<times> run_state" where
  "Run_default vr e o' refID =
     (case extract_Run None (default_callback vr o' refID) (release_image e) (NewVerifier vr, start_state) of
        (Some err, (verifier, st)) \<Rightarrow> (Some err, st)
      | (None, (verifier, st)) \<Rightarrow>
          if \<not> Verified vr verifier then
            (if \<not> SkipVerification o' then (Some FailedContentVerification, st)
             else (None, st\<lparr>stderr := stderr st @ [WarnError FailedContentVerification]\<rparr>))
          else (None, st))"

text \<open>\<open>Run\<close> (lines 132 to 244).\<close>

definition Run :: "'v Verifier \<Rightarrow> run_environment \<Rightarrow> ExtractOptions \<Rightarrow> error option \<times> run_state" where
  "Run vr e o' =
     (let sources = (if Tools o' then 1 else 0) + (if length (File o') > 0 then 1 else 0)
            + (if length (Command o') > 0 then 1 else 0)
            + (if length (GitExtractDir o') > 0 then (1::nat) else 0)
      in if sources > 1 then (Some OnlyOneSource, start_state)
         else if length (From o') = 0 then (Some MustSpecifyFrom, start_state)
         else if Directory o' \<noteq> ''.'' \<and> length (File o') > 0 then (Some ToAndFile, start_state)
         else if length (GitExtractDir o') > 0 then (git_flow e (GitExtractDir o'), start_state)
         else if Tools o' then (tools_flow e, start_state)
         else if length (Command o') > 0 then (command_flow e (Command o'), start_state)
         else (case osMkdirAll e (Directory o') of
                 Some err \<Rightarrow> (Some (External err), start_state)
               | None \<Rightarrow>
                   (case parseReference e (From o') of
                      Inl err \<Rightarrow> (Some (External err), start_state)
                    | Inr refID \<Rightarrow>
                        if length (File o') > 0 then Run_file e o'
                        else Run_default vr e o' refID)))"

text \<open>An image, its surroundings and two sets of options, for the examples.\<close>

definition image0 :: "string \<Rightarrow> image" where
  "image0 content = \<lparr>entries = [(''image-references'', Inr ''refs''), (''release-metadata'', Inr ''meta'')],
     metadata = [(''sha256:aa'', content, ''2019-06-01T00:00:00Z'')], failure = None\<rparr>"

definition renv0 :: "string \<Rightarrow> run_environment" where
  "renv0 content = \<lparr>osMkdirAll = (\<lambda>d. None), parseReference = (\<lambda>s. Inr []),
     release_image = image0 content, git_flow = (\<lambda>d. None), tools_flow = None,
     command_flow = (\<lambda>c. None)\<rparr>"

definition opts0 :: "bool \<Rightarrow> string \<Rightarrow> ExtractOptions" where
  "opts0 skip file = \<lparr>SkipVerification = skip, From = ''quay.io/release:4.1'', Tools = False,
     Command = [], GitExtractDir = [], Directory = ''.'', File = file,
     ImageMetadataCallback = False\<rparr>"

text \<open>
  Vocabulary of the claims about \<open>Run\<close>: the options and surroundings with which \<open>Run\<close>
  reaches the default case, or the single file case, and the line the default callback
  writes to standard output.
\<close>

definition default_flow :: "run_environment \<Rightarrow> ExtractOptions \<Rightarrow> string \<Rightarrow> bool" where
  "default_flow e o' refID \<longleftrightarrow>
     \<not> Tools o' \<and> File o' = [] \<and> Command o' = [] \<and> GitExtractDir o' = [] \<and> From o' \<noteq> []
     \<and> osMkdirAll e (Directory o') = None \<and> parseReference e (From o') = Inr refID"


definition payload_line :: "string \<Rightarrow> string \<times> string \<times> string \<Rightarrow> message" where
  "payload_line refID m =
     (case m of (d, c, t) \<Rightarrow> if length refID > 0 then ExtractedCreated t else ExtractedFromDigest d t)"

section \<open>What the loop submits\<close>

lemmas example_defs = extractGit_def env0_def tags0_def sched0_def tag_def init_def final0_def
  loop_body_def annotation_def Parallel_def task_body_def batch_done_def Let_def

lemma run0: "extractGit (env0 False tags0) ''img'' ''src'' sched0 = Some (BatchReturned final0 None)"
  by (simp add: example_defs)

lemma loop_body_no_source:
  "\<not> has_source e ref \<Longrightarrow> submitted (loop_body e ref s) = submitted s
     \<and> alreadyExtracted (loop_body e ref s) = alreadyExtracted s
     \<and> queued (loop_body e ref s) = queued s"
  by (simp add: loop_body_def has_source_def repo_of_def commit_of_def Let_def)

lemma loop_body_seen:
  "has_source e ref \<Longrightarrow> alreadyExtracted s (repo_of e ref) = Some c \<Longrightarrow>
     submitted (loop_body e ref s) = submitted s
     \<and> alreadyExtracted (loop_body e ref s) = alreadyExtracted s
     \<and> queued (loop_body e ref s) = queued s"
  by (simp add: loop_body_def has_source_def repo_of_def commit_of_def Let_def)

lemma loop_body_fresh:
  "has_source e ref \<Longrightarrow> alreadyExtracted s (repo_of e ref) = None \<Longrightarrow>
     submitted (loop_body e ref s) = submitted s @ [(repo_of e ref, commit_of e ref)]
     \<and> alreadyExtracted (loop_body e ref s) = (alreadyExtracted s)(repo_of e ref \<mapsto> commit_of e ref)
     \<and> queued (loop_body e ref s) = queued s @ [(repo_of e ref, commit_of e ref)]"
  by (simp add: loop_body_def has_source_def repo_of_def commit_of_def Let_def Parallel_def)

lemma producer_submitted:
  "submitted (producer e refs s) =
     submitted s @ first_per_repo (dom (alreadyExtracted s)) (sources e refs)"
proof (induction refs arbitrary: s)
  case Nil
  then show ?case by (simp add: sources_def)
next
  case (Cons ref refs)
  show ?case
  proof (cases "has_source e ref")
    case False
    then show ?thesis using Cons[of "loop_body e ref s"]
      by (simp add: loop_body_no_source sources_def)
  next
    case True
    show ?thesis
    proof (cases "alreadyExtracted s (repo_of e ref)")
      case None
      then have fresh: "repo_of e ref \<notin> dom (alreadyExtracted s)" by (simp add: domIff)
      have d: "dom (alreadyExtracted (loop_body e ref s)) = insert (repo_of e ref) (dom (alreadyExtracted s))"
        using True None by (simp add: loop_body_fresh)
      have sub: "submitted (loop_body e ref s) = submitted s @ [(repo_of e ref, commit_of e ref)]"
        using True None by (simp add: loop_body_fresh)
      show ?thesis using Cons[of "loop_body e ref s"] True fresh
        by (simp add: d sub sources_def)
    next
      case (Some c)
      then have "repo_of e ref \<in> dom (alreadyExtracted s)" by (simp add: domIff)
      then show ?thesis using Cons[of "loop_body e ref s"] True Some
        by (simp add: loop_body_seen sources_def)
    qed
  qed
qed

lemma first_per_repo_length:
  "finite seen \<Longrightarrow> length (first_per_repo seen ts) = card (fst ` set ts - seen)"
proof (induction seen ts rule: first_per_repo.induct)
  case (1 seen)
  then show ?case by simp
next
  case (2 seen r c ts)
  show ?case
  proof (cases "r \<in> seen")
    case True
    then have "fst ` set ((r, c) # ts) - seen = fst ` set ts - seen" by auto
    then show ?thesis using 2 True by simp
  next
    case False
    have eq: "fst ` set ((r, c) # ts) - seen = insert r (fst ` set ts - insert r seen)"
      using False by auto
    have "r \<notin> fst ` set ts - insert r seen" by simp
    moreover have "finite (fst ` set ts - insert r seen)" by simp
    ultimately have "card (insert r (fst ` set ts - insert r seen)) = Suc (card (fst ` set ts - insert r seen))"
      by (rule card_insert_disjoint[rotated])
    then show ?thesis using 2 False eq by simp
  qed
qed

lemma first_per_repo_member:
  "(r, c) \<in> set (first_per_repo seen ts) \<Longrightarrow> r \<notin> seen \<and> map_of ts r = Some c"
  by (induction seen ts rule: first_per_repo.induct) (auto split: if_splits)

lemma first_per_repo_fst:
  "fst ` set (first_per_repo seen ts) = fst ` set ts - seen"
  by (induction seen ts rule: first_per_repo.induct) (auto split: if_splits)

lemma first_per_repo_distinct:
  "distinct (map fst (first_per_repo seen ts))"
proof (induction seen ts rule: first_per_repo.induct)
  case (1 seen)
  then show ?case by simp
next
  case (2 seen r c ts)
  have "r \<notin> fst ` set (first_per_repo (insert r seen) ts)"
    by (simp add: first_per_repo_fst)
  then show ?case using 2 by simp
qed

lemma sources_first:
  "map_of (sources e refs) r = Some c \<Longrightarrow>
     \<exists>pre ref post. refs = pre @ ref # post \<and> has_source e ref \<and> repo_of e ref = r
        \<and> commit_of e ref = c \<and> (\<forall>p\<in>set pre. has_source e p \<longrightarrow> repo_of e p \<noteq> r)"
proof (induction refs)
  case Nil
  then show ?case by (simp add: sources_def)
next
  case (Cons x refs)
  show ?case
  proof (cases "has_source e x \<and> repo_of e x = r")
    case True
    then have "c = commit_of e x" using Cons.prems by (simp add: sources_def)
    then have "x # refs = [] @ x # refs \<and> has_source e x \<and> repo_of e x = r
        \<and> commit_of e x = c \<and> (\<forall>p\<in>set []. has_source e p \<longrightarrow> repo_of e p \<noteq> r)"
      using True by simp
    then show ?thesis by blast
  next
    case False
    then have "map_of (sources e refs) r = Some c"
      using Cons.prems by (auto simp: sources_def split: if_splits)
    from Cons.IH[OF this] obtain pre ref post where
      h: "refs = pre @ ref # post" "has_source e ref" "repo_of e ref = r" "commit_of e ref = c"
         "\<forall>p\<in>set pre. has_source e p \<longrightarrow> repo_of e p \<noteq> r" by blast
    have "x # refs = (x # pre) @ ref # post \<and> has_source e ref \<and> repo_of e ref = r
        \<and> commit_of e ref = c \<and> (\<forall>p\<in>set (x # pre). has_source e p \<longrightarrow> repo_of e p \<noteq> r)"
      using h False by auto
    then show ?thesis by blast
  qed
qed

lemma sources_repos:
  "fst ` set (sources e refs) = {repo_of e ref | ref. ref \<in> set refs \<and> has_source e ref}"
  by (auto simp: sources_def image_iff)

lemma extractGit_returned:
  assumes "extractGit e from dir sched = Some (BatchReturned s r)"
    and "loadReleaseInfo e from = Inr refs"
  shows "\<exists>c. exec e dir sched (refs, init) = Some c \<and> batch_done c \<and> snd c = s
           \<and> r = (if hadErrors s then Some ErrExit else None)"
  using assms
  by (auto simp: extractGit_def split: option.splits sum.splits if_splits)

section \<open>The loop inside the batch\<close>

lemma loop_body_shape:
  "\<exists>m ms ks ts. loop_body e ref s =
     s\<lparr>alreadyExtracted := m, errOut := errOut s @ ms, klog := klog s @ ks,
       submitted := submitted s @ ts, queued := queued s @ ts\<rparr>"
proof (cases "has_source e ref")
  case False
  show ?thesis
  proof (cases "klogV2 e")
    case True
    have "loop_body e ref s = s\<lparr>alreadyExtracted := alreadyExtracted s, errOut := errOut s @ [],
       klog := klog s @ [InfoNoSourceInfo (Name ref)], submitted := submitted s @ [], queued := queued s @ []\<rparr>"
      using False True by (simp add: loop_body_def has_source_def repo_of_def commit_of_def Let_def)
    then show ?thesis by blast
  next
    case nv: False
    have "loop_body e ref s = s\<lparr>alreadyExtracted := alreadyExtracted s,
       errOut := errOut s @ [WarnNoSourceInfo (Name ref)],
       klog := klog s @ [], submitted := submitted s @ [], queued := queued s @ []\<rparr>"
      using False nv by (simp add: loop_body_def has_source_def repo_of_def commit_of_def Let_def)
    then show ?thesis by blast
  qed
next
  case True
  show ?thesis
  proof (cases "alreadyExtracted s (repo_of e ref)")
    case None
    have "loop_body e ref s = s\<lparr>alreadyExtracted := (alreadyExtracted s)(repo_of e ref \<mapsto> commit_of e ref),
       errOut := errOut s @ [], klog := klog s @ [],
       submitted := submitted s @ [(repo_of e ref, commit_of e ref)],
       queued := queued s @ [(repo_of e ref, commit_of e ref)]\<rparr>"
      using True None by (simp add: loop_body_def has_source_def repo_of_def commit_of_def Let_def Parallel_def)
    then show ?thesis by blast
  next
    case (Some c)
    show ?thesis
    proof (cases "c = commit_of e ref")
      case same: True
      have "loop_body e ref s = s\<lparr>alreadyExtracted := alreadyExtracted s, errOut := errOut s @ [],
         klog := klog s @ [], submitted := submitted s @ [], queued := queued s @ []\<rparr>"
        using True Some same by (simp add: loop_body_def has_source_def repo_of_def commit_of_def Let_def)
      then show ?thesis by blast
    next
      case diff: False
      have "loop_body e ref s = s\<lparr>alreadyExtracted := alreadyExtracted s,
         errOut := errOut s @ [WarnDifferentCommits (repo_of e ref)],
         klog := klog s @ [], submitted := submitted s @ [], queued := queued s @ []\<rparr>"
        using True Some diff by (simp add: loop_body_def has_source_def repo_of_def commit_of_def Let_def)
      then show ?thesis by blast
    qed
  qed
qed

lemma loop_body_keeps:
  "hadErrors (loop_body e ref s) = hadErrors s"
  "onceDone (loop_body e ref s) = onceDone s"
  "flagWrites (loop_body e ref s) = flagWrites s"
  "out (loop_body e ref s) = out s"
  "running (loop_body e ref s) = running s"
  "maxParallel (loop_body e ref s) = maxParallel s"
  using loop_body_shape[of e ref s] by auto

lemma perform_keeps:
  "alreadyExtracted (perform a s) = alreadyExtracted s"
  "submitted (perform a s) = submitted s"
  "queued (perform a s) = queued s"
  "running (perform a s) = running s"
  "maxParallel (perform a s) = maxParallel s"
  "klog (perform a s) = klog s"
  by (cases a; simp)+

lemma step_plan:
  assumes "step e dir c (refs, s) = Some (refs', s')"
  shows "submitted s' @ first_per_repo (dom (alreadyExtracted s')) (sources e refs')
       = submitted s @ first_per_repo (dom (alreadyExtracted s)) (sources e refs)"
proof (cases c)
  case Produce
  then obtain ref where r: "refs = ref # refs'" "s' = loop_body e ref s"
    using assms by (auto split: list.splits)
  have "submitted (producer e (ref # refs') s) = submitted (producer e refs' (loop_body e ref s))"
    by simp
  then show ?thesis unfolding r using producer_submitted[of e "ref # refs'" s]
      producer_submitted[of e refs' "loop_body e ref s"] by simp
next
  case Start
  then show ?thesis using assms by (auto split: list.splits if_splits)
next
  case (Work i)
  then show ?thesis using assms
    by (auto split: list.splits if_splits prod.splits simp: perform_keeps)
qed

lemma exec_plan:
  "exec e dir sched (refs, s) = Some (refs', s') \<Longrightarrow>
     submitted s' @ first_per_repo (dom (alreadyExtracted s')) (sources e refs')
       = submitted s @ first_per_repo (dom (alreadyExtracted s)) (sources e refs)"
proof (induction sched arbitrary: refs s)
  case Nil
  then show ?case by simp
next
  case (Cons x xs)
  then obtain r1 s1 where st: "step e dir x (refs, s) = Some (r1, s1)"
    and ex: "exec e dir xs (r1, s1) = Some (refs', s')"
    by (cases "step e dir x (refs, s)") auto
  show ?case using Cons.IH[OF ex] step_plan[OF st] by simp
qed

lemma batch_submitted:
  assumes "exec e dir sched (refs, init) = Some c" "fst c = []"
  shows "submitted (snd c) = first_per_repo {} (sources e refs)"
proof -
  obtain r s where c: "c = (r, s)" by (cases c)
  with assms have "r = []" by simp
  with exec_plan[of e dir sched refs init r s] assms c
  show ?thesis by (simp add: init_def sources_def)
qed

lemma loop_body_plan:
  "loop_body e ref s =
     s\<lparr>alreadyExtracted := alreadyExtracted (plan e (alreadyExtracted s) [ref]),
       errOut := errOut s @ errOut (plan e (alreadyExtracted s) [ref]),
       klog := klog s @ klog (plan e (alreadyExtracted s) [ref]),
       submitted := submitted s @ submitted (plan e (alreadyExtracted s) [ref]),
       queued := queued s @ queued (plan e (alreadyExtracted s) [ref])\<rparr>"
  by (simp add: plan_def loop_body_def init_def Parallel_def Let_def split: option.splits)

lemma plan_single: "plan e m [ref] = loop_body e ref (init\<lparr>alreadyExtracted := m\<rparr>)"
  by (simp add: plan_def)

lemma plan_Nil:
  "alreadyExtracted (plan e m []) = m" "errOut (plan e m []) = []" "klog (plan e m []) = []"
  "submitted (plan e m []) = []" "queued (plan e m []) = []"
  by (simp_all add: plan_def init_def)

lemma producer_plan:
  "producer e refs s =
     s\<lparr>alreadyExtracted := alreadyExtracted (plan e (alreadyExtracted s) refs),
       errOut := errOut s @ errOut (plan e (alreadyExtracted s) refs),
       klog := klog s @ klog (plan e (alreadyExtracted s) refs),
       submitted := submitted s @ submitted (plan e (alreadyExtracted s) refs),
       queued := queued s @ queued (plan e (alreadyExtracted s) refs)\<rparr>"
proof (induction refs arbitrary: s)
  case Nil
  show ?case by (simp add: plan_Nil)
next
  case (Cons ref refs)
  define m where "m = alreadyExtracted s"
  define p where "p = plan e m [ref]"
  define q where "q = plan e (alreadyExtracted p) refs"
  have s1: "loop_body e ref s = s\<lparr>alreadyExtracted := alreadyExtracted p,
       errOut := errOut s @ errOut p, klog := klog s @ klog p,
       submitted := submitted s @ submitted p, queued := queued s @ queued p\<rparr>"
    unfolding p_def m_def by (rule loop_body_plan)
  have pc: "plan e m (ref # refs) = producer e refs p"
    by (simp add: plan_def p_def)
  have pq: "producer e refs p = p\<lparr>alreadyExtracted := alreadyExtracted q,
       errOut := errOut p @ errOut q, klog := klog p @ klog q,
       submitted := submitted p @ submitted q, queued := queued p @ queued q\<rparr>"
    unfolding q_def by (rule Cons.IH)
  have "producer e (ref # refs) s = producer e refs (loop_body e ref s)" by simp
  also have "\<dots> = (loop_body e ref s)\<lparr>alreadyExtracted := alreadyExtracted q,
       errOut := errOut (loop_body e ref s) @ errOut q, klog := klog (loop_body e ref s) @ klog q,
       submitted := submitted (loop_body e ref s) @ submitted q,
       queued := queued (loop_body e ref s) @ queued q\<rparr>"
    using Cons.IH[of "loop_body e ref s"] by (simp add: s1 q_def)
  also have "\<dots> = s\<lparr>alreadyExtracted := alreadyExtracted (plan e m (ref # refs)),
       errOut := errOut s @ errOut (plan e m (ref # refs)),
       klog := klog s @ klog (plan e m (ref # refs)),
       submitted := submitted s @ submitted (plan e m (ref # refs)),
       queued := queued s @ queued (plan e m (ref # refs))\<rparr>"
    by (simp add: s1 pc pq)
  finally show ?case by (simp add: m_def)
qed

lemma plan_lines: "m \<in> set (errOut (plan e mp refs)) \<Longrightarrow> producer_line m"
proof (induction refs arbitrary: mp)
  case Nil
  then show ?case by (simp add: plan_Nil)
next
  case (Cons ref refs)
  have "plan e mp (ref # refs) = producer e refs (plan e mp [ref])" by (simp add: plan_def)
  then have "errOut (plan e mp (ref # refs)) =
     errOut (plan e mp [ref]) @ errOut (plan e (alreadyExtracted (plan e mp [ref])) refs)"
    by (simp add: producer_plan[of e refs "plan e mp [ref]"])
  moreover have "x \<in> set (errOut (plan e mp [ref])) \<Longrightarrow> producer_line x" for x
    by (auto simp: plan_single loop_body_def init_def Let_def Parallel_def split: option.splits if_splits)
  ultimately show ?case using Cons by auto
qed

lemma producer_fields:
  "alreadyExtracted (producer e refs s) = alreadyExtracted (plan e (alreadyExtracted s) refs)"
  "submitted (producer e refs s) = submitted s @ submitted (plan e (alreadyExtracted s) refs)"
  "queued (producer e refs s) = queued s @ queued (plan e (alreadyExtracted s) refs)"
  "klog (producer e refs s) = klog s @ klog (plan e (alreadyExtracted s) refs)"
  "errOut (producer e refs s) = errOut s @ errOut (plan e (alreadyExtracted s) refs)"
  "hadErrors (producer e refs s) = hadErrors s"
  "out (producer e refs s) = out s"
  by (subst producer_plan, simp)+

lemma plan_errOut_filter: "filter producer_line (errOut (plan e m refs)) = errOut (plan e m refs)"
  using plan_lines by (simp add: filter_id_conv)

lemma task_body_cases:
  obtains err buf where "task_body e dir t = [OnceSetHadErrors, WriteErrOut (ErrorCloning (fst t) err buf)]"
  | err where "task_body e dir t = [OnceSetHadErrors, WriteErrOut (ErrorCheckingOut (fst t) err [])]"
  | path where "task_body e dir t = [WriteOut (RepoPath path)]"
proof -
  obtain repo commit where t: "t = (repo, commit)" by (cases t)
  show ?thesis
  proof (cases "ensureCloneForRepo e dir repo")
    case (Inl a)
    then have "task_body e dir t = [OnceSetHadErrors, WriteErrOut (ErrorCloning (fst t) (fst a) (snd a))]"
      by (simp add: task_body_def t split: prod.splits)
    then show ?thesis by (rule that(1))
  next
    case (Inr path)
    show ?thesis
    proof (cases "checkoutCommit e path repo commit")
      case None
      then have "task_body e dir t = [WriteOut (RepoPath path)]"
        using Inr by (simp add: task_body_def t)
      then show ?thesis by (rule that(3))
    next
      case (Some err)
      then have "task_body e dir t = [OnceSetHadErrors, WriteErrOut (ErrorCheckingOut (fst t) err [])]"
        using Inr by (simp add: task_body_def t)
      then show ?thesis by (rule that(2))
    qed
  qed
qed

lemma task_body_lines: "WriteErrOut m \<in> set (task_body e dir t) \<Longrightarrow> \<not> producer_line m"
  by (rule task_body_cases[of e dir t]) auto

lemma perform_errOut:
  "errOut (perform a s) = errOut s @ (case a of WriteErrOut m \<Rightarrow> [m] | _ \<Rightarrow> [])"
  by (cases a) simp_all

text \<open>The quantity every step of the batch preserves.\<close>

lemma step_link:
  assumes "step e dir c (refs, s) = Some (refs', s')"
    and "\<forall>(t, as) \<in> set (running s). \<forall>m. WriteErrOut m \<in> set as \<longrightarrow> \<not> producer_line m"
  shows "alreadyExtracted (producer e refs' s') = alreadyExtracted (producer e refs s)
     \<and> submitted (producer e refs' s') = submitted (producer e refs s)
     \<and> klog (producer e refs' s') = klog (producer e refs s)
     \<and> filter producer_line (errOut (producer e refs' s')) = filter producer_line (errOut (producer e refs s))"
proof (cases c)
  case Produce
  then show ?thesis using assms by (auto split: list.splits)
next
  case Start
  then show ?thesis using assms
    by (auto split: list.splits if_splits simp: producer_fields)
next
  case (Work i)
  then have i: "i < length (running s)" and r: "refs' = refs"
    using assms by (auto split: if_splits prod.splits list.splits)
  obtain t as where ti: "running s ! i = (t, as)" by (cases "running s ! i")
  show ?thesis
  proof (cases as)
    case Nil
    then have "s' = s\<lparr>running := take i (running s) @ drop (Suc i) (running s)\<rparr>"
      using assms Work ti i by auto
    then show ?thesis unfolding r by (simp add: producer_fields)
  next
    case (Cons a as')
    then have s': "s' = (perform a s)\<lparr>running := (running s)[i := (t, as')]\<rparr>"
      using assms Work ti i by auto
    have "(t, a # as') \<in> set (running s)" using ti i Cons nth_mem by metis
    then have np: "\<And>m. a = WriteErrOut m \<Longrightarrow> \<not> producer_line m"
      using assms(2) by auto
    have "filter producer_line (errOut (perform a s)) = filter producer_line (errOut s)"
      using np by (cases a) (simp_all add: perform_errOut)
    then show ?thesis unfolding s' r
      by (simp add: producer_fields perform_keeps)
  qed
qed

lemma step_cases:
  assumes "step e dir c (refs, s) = Some (refs', s')"
  obtains
    (produce) ref where "c = Produce" "refs = ref # refs'" "s' = loop_body e ref s"
  | (start) t q where "c = Start" "refs' = refs" "queued s = t # q"
      "length (running s) < maxParallel s"
      "s' = s\<lparr>queued := q, running := running s @ [(t, task_body e dir t)]\<rparr>"
  | (return) i t where "c = Work i" "refs' = refs" "i < length (running s)"
      "running s ! i = (t, [])"
      "s' = s\<lparr>running := take i (running s) @ drop (Suc i) (running s)\<rparr>"
  | (effect) i t a as where "c = Work i" "refs' = refs" "i < length (running s)"
      "running s ! i = (t, a # as)"
      "s' = (perform a s)\<lparr>running := (running s)[i := (t, as)]\<rparr>"
proof (cases c)
  case Produce
  then show ?thesis using assms produce by (auto split: list.splits)
next
  case Start
  then show ?thesis using assms start by (auto split: list.splits if_splits)
next
  case (Work i)
  then have i: "i < length (running s)" using assms by (auto split: if_splits)
  obtain t as where ti: "running s ! i = (t, as)" by (cases "running s ! i")
  show ?thesis
  proof (cases as)
    case Nil
    then show ?thesis using assms Work i ti return by auto
  next
    case (Cons a as')
    then show ?thesis using assms Work i ti effect by auto
  qed
qed

lemma exec_invariant:
  assumes "exec e dir sched c = Some c'" and "P c"
    and "\<And>x c1 c2. P c1 \<Longrightarrow> step e dir x c1 = Some c2 \<Longrightarrow> P c2"
  shows "P c'"
  using assms(1,2)
proof (induction sched arbitrary: c)
  case Nil
  then show ?case by simp
next
  case (Cons x xs)
  then obtain c1 where st: "step e dir x c = Some c1" and ex: "exec e dir xs c1 = Some c'"
    by (cases "step e dir x c") auto
  show ?case using Cons.IH[OF ex] assms(3)[OF Cons.prems(2) st] by blast
qed

lemma removed_subset: "set (take i xs @ drop (Suc i) xs) \<subseteq> set xs"
  using set_take_subset[of i xs] set_drop_subset[of "Suc i" xs] by auto

lemma removed_keeps:
  assumes "x \<in> set xs" "x \<noteq> xs ! i" "i < length xs"
  shows "x \<in> set (take i xs @ drop (Suc i) xs)"
proof -
  have "xs = take i xs @ xs ! i # drop (Suc i) xs" using assms(3) by (rule id_take_nth_drop)
  then have "set xs = set (take i xs) \<union> {xs ! i} \<union> set (drop (Suc i) xs)"
    by (metis Un_insert_right list.simps(15) set_append sup_bot.right_neutral Un_assoc insert_is_Un)
  then show ?thesis using assms(1,2) by auto
qed

lemma updated_keeps:
  assumes "x \<in> set xs" "x \<noteq> xs ! i"
  shows "x \<in> set (xs[i := y])"
proof -
  obtain j where j: "j < length xs" "xs ! j = x" using assms(1) by (auto simp: in_set_conv_nth)
  then have "j \<noteq> i" using assms(2) by auto
  then have "xs[i := y] ! j = x" using j by simp
  then show ?thesis using j by (metis length_list_update nth_mem)
qed

lemma step_inv_flag:
  assumes "step e dir c (refs, s) = Some (refs', s')" "inv_flag s"
  shows "inv_flag s' \<and> (hadErrors s \<longrightarrow> hadErrors s') \<and> flagWrites s \<le> flagWrites s'"
  using assms(1)
proof (cases rule: step_cases)
  case (produce ref)
  then show ?thesis using assms(2) by (simp add: inv_flag_def loop_body_keeps)
next
  case (start t q)
  then show ?thesis using assms(2) by (simp add: inv_flag_def)
next
  case (return i t)
  then show ?thesis using assms(2) by (simp add: inv_flag_def)
next
  case (effect i t a as)
  then show ?thesis using assms(2) by (cases a) (auto simp: inv_flag_def)
qed

lemma step_inv_bound:
  assumes "step e dir c (refs, s) = Some (refs', s')" "inv_bound s"
  shows "inv_bound s'"
  using assms(1)
proof (cases rule: step_cases)
  case (produce ref)
  then show ?thesis using assms(2) by (auto simp: inv_bound_def loop_body_keeps)
next
  case (start t q)
  then show ?thesis using assms(2) by (auto simp: inv_bound_def)
next
  case (return i t)
  then show ?thesis using assms(2) by (auto simp: inv_bound_def)
next
  case (effect i t a as)
  then show ?thesis using assms(2) by (auto simp: inv_bound_def perform_keeps)
qed

lemma reflected_running [simp]: "reflected a (s\<lparr>running := r\<rparr>) = reflected a s"
  by (simp add: reflected_def split: action.splits)

lemma reflected_queued [simp]: "reflected a (s\<lparr>queued := r\<rparr>) = reflected a s"
  by (simp add: reflected_def split: action.splits)

lemma reflected_loop_body: "reflected a s \<Longrightarrow> reflected a (loop_body e ref s)"
  using loop_body_shape[of e ref s] by (auto simp: reflected_def split: action.splits)

lemma reflected_perform: "reflected a s \<Longrightarrow> reflected a (perform b s)"
  by (cases b) (auto simp: reflected_def split: action.splits)

lemma perform_reflects: "inv_flag s \<Longrightarrow> reflected b (perform b s)"
  by (cases b) (auto simp: reflected_def inv_flag_def)

lemma step_reflected:
  assumes "step e dir c (refs, s) = Some (refs', s')" "reflected a s"
  shows "reflected a s'"
  using assms(1)
proof (cases rule: step_cases)
  case (produce ref)
  then show ?thesis using assms(2) by (simp add: reflected_loop_body)
next
  case (start t q)
  then show ?thesis using assms(2) by simp
next
  case (return i t)
  then show ?thesis using assms(2) by simp
next
  case (effect i t b as)
  then show ?thesis using assms(2) by (simp add: reflected_perform)
qed

lemma step_accounted:
  assumes "step e dir c (refs, s) = Some (refs', s')" "accounted e dir s" "inv_flag s"
  shows "accounted e dir s'"
  unfolding accounted_def
proof (intro ballI)
  fix t a assume t: "t \<in> set (submitted s')" and a: "a \<in> set (task_body e dir t)"
  show "reflected a s' \<or> t \<in> set (queued s') \<or> (\<exists>as. (t, as) \<in> set (running s') \<and> a \<in> set as)"
    using assms(1)
  proof (cases rule: step_cases)
    case (produce ref)
    obtain m ms ks ts where sh: "s' = s\<lparr>alreadyExtracted := m, errOut := errOut s @ ms,
        klog := klog s @ ks, submitted := submitted s @ ts, queued := queued s @ ts\<rparr>"
      using loop_body_shape[of e ref s] produce by auto
    show ?thesis
    proof (cases "t \<in> set (submitted s)")
      case True
      then have "reflected a s \<or> t \<in> set (queued s) \<or> (\<exists>as. (t, as) \<in> set (running s) \<and> a \<in> set as)"
        using assms(2) a by (auto simp: accounted_def)
      moreover have "reflected a s \<Longrightarrow> reflected a s'"
        using produce by (simp add: reflected_loop_body)
      ultimately show ?thesis using sh by auto
    next
      case False
      then have "t \<in> set ts" using t sh by auto
      then show ?thesis using sh by simp
    qed
  next
    case (start u q)
    have "reflected a s \<or> t \<in> set (queued s) \<or> (\<exists>as. (t, as) \<in> set (running s) \<and> a \<in> set as)"
      using assms(2) a t start by (auto simp: accounted_def)
    then show ?thesis using start a by auto
  next
    case (return i u)
    have "reflected a s \<or> t \<in> set (queued s) \<or> (\<exists>as. (t, as) \<in> set (running s) \<and> a \<in> set as)"
      using assms(2) a t return by (auto simp: accounted_def)
    moreover have "(t, as) \<in> set (running s') \<and> a \<in> set as"
      if "(t, as) \<in> set (running s)" "a \<in> set as" for as
    proof -
      have "(t, as) \<noteq> running s ! i" using that return by auto
      then show ?thesis using that return removed_keeps[of "(t, as)" "running s" i] by simp
    qed
    ultimately show ?thesis using return by auto
  next
    case (effect i u b bs)
    have old: "reflected a s \<or> t \<in> set (queued s) \<or> (\<exists>as. (t, as) \<in> set (running s) \<and> a \<in> set as)"
      using assms(2) a t effect by (auto simp: accounted_def perform_keeps)
    have run: "running s' = (running s)[i := (u, bs)]" and q: "queued s' = queued s"
      using effect by (simp_all add: perform_keeps)
    have refl: "reflected x s \<Longrightarrow> reflected x s'" for x
      using effect by (simp add: reflected_perform)
    have now: "reflected b s'" using effect assms(3) by (simp add: perform_reflects)
    have "reflected a s' \<or> (\<exists>as'. (t, as') \<in> set (running s') \<and> a \<in> set as')"
      if h: "(t, as) \<in> set (running s)" "a \<in> set as" for as
    proof (cases "(t, as) = running s ! i")
      case True
      then have "t = u" "as = b # bs" using effect by auto
      then have "a = b \<or> a \<in> set bs" using h by auto
      moreover have "(u, bs) \<in> set (running s')"
        unfolding run using effect(3) by (rule set_update_memI)
      ultimately show ?thesis using now \<open>t = u\<close> by auto
    next
      case False
      then have "(t, as) \<in> set (running s')" unfolding run using h updated_keeps by metis
      then show ?thesis using h by auto
    qed
    then show ?thesis using old refl q by auto
  qed
qed

lemma perform_hadErrors: "hadErrors (perform b s) \<Longrightarrow> hadErrors s \<or> b = OnceSetHadErrors"
  by (cases b) (auto split: if_splits)

lemma step_inv_origin:
  assumes "step e dir c (refs, s) = Some (refs', s')" "inv_origin e dir s"
  shows "inv_origin e dir s'"
  using assms(1)
proof (cases rule: step_cases)
  case (produce ref)
  obtain m ms ks ts where sh: "s' = s\<lparr>alreadyExtracted := m, errOut := errOut s @ ms,
      klog := klog s @ ks, submitted := submitted s @ ts, queued := queued s @ ts\<rparr>"
    using loop_body_shape[of e ref s] produce by auto
  show ?thesis using assms(2) unfolding sh inv_origin_def by auto
next
  case (start t q)
  have "t \<in> set (submitted s)" using assms(2) start by (auto simp: inv_origin_def)
  moreover have "task_body e dir t = [] @ task_body e dir t" by simp
  ultimately show ?thesis using assms(2) start unfolding inv_origin_def by auto
next
  case (return i t)
  have "set (running s') \<subseteq> set (running s)" using return removed_subset by simp
  then show ?thesis using assms(2) return unfolding inv_origin_def by auto
next
  case (effect i t b bs)
  have mem: "(t, b # bs) \<in> set (running s)" using effect nth_mem by metis
  then obtain pre where pre: "t \<in> set (submitted s)" "task_body e dir t = pre @ b # bs"
    using assms(2) unfolding inv_origin_def by auto
  then have new: "task_body e dir t = (pre @ [b]) @ bs" by simp
  have run: "set (running s') \<subseteq> insert (t, bs) (set (running s))"
    using effect set_update_subset_insert by simp
  have bt: "b \<in> set (task_body e dir t)" using pre by simp
  have had: "hadErrors s' \<longrightarrow> (\<exists>t \<in> set (submitted s). OnceSetHadErrors \<in> set (task_body e dir t))"
  proof
    assume "hadErrors s'"
    then have "hadErrors s \<or> b = OnceSetHadErrors" using effect perform_hadErrors by simp
    then show "\<exists>t \<in> set (submitted s). OnceSetHadErrors \<in> set (task_body e dir t)"
      using assms(2) bt pre(1) unfolding inv_origin_def by auto
  qed
  have q: "queued s' = queued s" "submitted s' = submitted s"
    using effect by (simp_all add: perform_keeps)
  have "t' \<in> set (submitted s) \<and> (\<exists>pre. task_body e dir t' = pre @ as)"
    if "(t', as) \<in> set (running s')" for t' as
  proof (cases "(t', as) = (t, bs)")
    case True
    then show ?thesis using pre(1) new by blast
  next
    case False
    then have "(t', as) \<in> set (running s)" using that run by auto
    then show ?thesis using assms(2) unfolding inv_origin_def by auto
  qed
  then show ?thesis using assms(2) had q unfolding inv_origin_def by auto
qed

lemma task_body_length: "length (task_body e dir t) \<le> 2"
  by (rule task_body_cases[of e dir t]) auto

lemma loop_body_queued_length: "length (queued (loop_body e ref s)) \<le> Suc (length (queued s))"
  by (simp add: loop_body_def Let_def Parallel_def split: option.splits)

lemma sum_list_removed:
  fixes f :: "'a \<Rightarrow> nat"
  assumes "i < length xs"
  shows "sum_list (map f xs) = sum_list (map f (take i xs @ drop (Suc i) xs)) + f (xs ! i)"
proof -
  have "xs = take i xs @ xs ! i # drop (Suc i) xs" using assms by (rule id_take_nth_drop)
  then have "sum_list (map f xs) = sum_list (map f (take i xs @ xs ! i # drop (Suc i) xs))" by simp
  also have "\<dots> = sum_list (map f (take i xs @ drop (Suc i) xs)) + f (xs ! i)" by simp
  finally show ?thesis .
qed

lemma sum_list_updated:
  fixes f :: "'a \<Rightarrow> nat"
  assumes "i < length xs"
  shows "sum_list (map f (xs[i := y])) + f (xs ! i) = sum_list (map f xs) + f y"
proof -
  have "xs[i := y] = take i xs @ y # drop (Suc i) xs" using assms by (rule upd_conv_take_nth_drop)
  then show ?thesis using sum_list_removed[OF assms, of f] by simp
qed

lemma step_weight:
  assumes "step e dir c (refs, s) = Some (refs', s')"
  shows "weight (refs', s') < weight (refs, s)"
  using assms
proof (cases rule: step_cases)
  case (produce ref)
  then show ?thesis using loop_body_queued_length[of e ref s]
    by (simp add: weight_def loop_body_keeps)
next
  case (start t q)
  then show ?thesis using task_body_length[of e dir t] by (simp add: weight_def)
next
  case (return i t)
  then show ?thesis
    using sum_list_removed[of i "running s" "\<lambda>(t, as). Suc (length as)"]
    by (simp add: weight_def)
next
  case (effect i t a as)
  then show ?thesis
    using sum_list_updated[of i "running s" "\<lambda>(t, as). Suc (length as)" "(t, as)"]
    by (simp add: weight_def perform_keeps)
qed

lemma exec_length:
  "exec e dir sched c = Some c' \<Longrightarrow> length sched + weight c' \<le> weight c"
proof (induction sched arbitrary: c)
  case Nil
  then show ?case by simp
next
  case (Cons x xs)
  then obtain c1 where st: "step e dir x c = Some c1" and ex: "exec e dir xs c1 = Some c'"
    by (cases "step e dir x c") auto
  have "weight c1 < weight c" using step_weight[of e dir x "fst c" "snd c" "fst c1" "snd c1"] st by simp
  then show ?case using Cons.IH[OF ex] by simp
qed

lemma progress:
  assumes "\<not> batch_done (refs, s)" "0 < maxParallel s"
  shows "\<exists>x c'. step e dir x (refs, s) = Some c'"
proof (cases refs)
  case (Cons ref rest)
  then have "step e dir Produce (refs, s) = Some (rest, loop_body e ref s)" by simp
  then show ?thesis by blast
next
  case Nil
  show ?thesis
  proof (cases "running s")
    case (Cons r rs)
    then have "\<exists>c'. step e dir (Work 0) (refs, s) = Some c'"
      by (cases r; cases "snd r") auto
    then show ?thesis by blast
  next
    case rn: Nil
    then obtain t q where "queued s = t # q" using assms(1) Nil
      by (cases "queued s") (auto simp: batch_done_def)
    then have "\<exists>c'. step e dir Start (refs, s) = Some c'" using rn assms(2) by simp
    then show ?thesis by blast
  qed
qed

lemma step_maxParallel:
  "step e dir x (refs, s) = Some (refs', s') \<Longrightarrow> maxParallel s' = maxParallel s"
  by (cases rule: step_cases) (auto simp: loop_body_keeps perform_keeps)

lemma completes:
  "0 < maxParallel (snd c) \<Longrightarrow> \<exists>sched c'. exec e dir sched c = Some c' \<and> batch_done c'"
proof (induction "weight c" arbitrary: c rule: less_induct)
  case less
  show ?case
  proof (cases "batch_done c")
    case True
    then have "exec e dir [] c = Some c \<and> batch_done c" by simp
    then show ?thesis by blast
  next
    case False
    obtain refs s where c: "c = (refs, s)" by (cases c)
    then obtain x c1 where st: "step e dir x (refs, s) = Some c1"
      using progress[of refs s e dir] False less.prems by auto
    obtain r1 s1 where c1: "c1 = (r1, s1)" by (cases c1)
    have "weight c1 < weight c" using step_weight st c c1 by simp
    moreover have "0 < maxParallel (snd c1)" using step_maxParallel st c c1 less.prems by simp
    ultimately obtain sched c' where "exec e dir sched c1 = Some c'" "batch_done c'"
      using less.hyps by blast
    then have "exec e dir (x # sched) c = Some c' \<and> batch_done c'" using st c by simp
    then show ?thesis by blast
  qed
qed

text \<open>
  \<open>Batch\<close> returns: every step lowers the weight of the configuration, so a schedule is
  at most five steps a tag long, some step is enabled until the batch is done, and a
  complete schedule exists for every release.
\<close>

lemma extractGit_returns: "\<exists>sched r. extractGit e from dir sched = Some r"
proof (cases "mkdirAll e dir")
  case (Some err)
  then show ?thesis by (simp add: extractGit_def)
next
  case None
  show ?thesis
  proof (cases "loadReleaseInfo e from")
    case (Inl err)
    then show ?thesis using None by (simp add: extractGit_def)
  next
    case (Inr refs)
    have "0 < maxParallel (snd (refs, init))" by (simp add: init_def)
    then obtain sched c' where "exec e dir sched (refs, init) = Some c'" "batch_done c'"
      using completes by blast
    then have "extractGit e from dir sched =
        Some (BatchReturned (snd c') (if hadErrors (snd c') then Some ErrExit else None))"
      using None Inr by (simp add: extractGit_def)
    then show ?thesis by blast
  qed
qed

lemma init_batch_inv: "batch_inv e dir init"
  by (simp add: batch_inv_def inv_flag_def inv_bound_def inv_origin_def accounted_def init_def)

lemma step_batch_inv:
  assumes "step e dir x c1 = Some c2" "batch_inv e dir (snd c1)"
  shows "batch_inv e dir (snd c2)"
proof -
  obtain r1 s1 r2 s2 where c: "c1 = (r1, s1)" "c2 = (r2, s2)" by (cases c1; cases c2) auto
  then have st: "step e dir x (r1, s1) = Some (r2, s2)" using assms by simp
  show ?thesis using assms(2) step_inv_flag[OF st] step_inv_bound[OF st]
      step_inv_origin[OF st] step_accounted[OF st]
    by (simp add: batch_inv_def c)
qed

lemma exec_batch_inv:
  assumes "exec e dir sched (refs, init) = Some c"
  shows "batch_inv e dir (snd c)"
  by (rule exec_invariant[OF assms, where P = "\<lambda>c. batch_inv e dir (snd c)"])
    (simp_all add: init_batch_inv step_batch_inv)

lemma running_lines:
  assumes "inv_origin e dir s"
  shows "\<forall>(t, as) \<in> set (running s). \<forall>m. WriteErrOut m \<in> set as \<longrightarrow> \<not> producer_line m"
proof (clarify)
  fix t as m assume h: "(t, as) \<in> set (running s)" "WriteErrOut m \<in> set as" "producer_line m"
  then obtain pre where "task_body e dir t = pre @ as"
    using assms unfolding inv_origin_def by auto
  then have "WriteErrOut m \<in> set (task_body e dir t)" using h by simp
  then show False using task_body_lines h by blast
qed

lemma exec_link:
  assumes "exec e dir sched (refs, init) = Some (rest, s)"
  shows "alreadyExtracted (producer e rest s) = alreadyExtracted (producer e refs init)
     \<and> submitted (producer e rest s) = submitted (producer e refs init)
     \<and> klog (producer e rest s) = klog (producer e refs init)
     \<and> filter producer_line (errOut (producer e rest s)) = filter producer_line (errOut (producer e refs init))"
proof -
  let ?Q = "\<lambda>c. batch_inv e dir (snd c)
     \<and> alreadyExtracted (producer e (fst c) (snd c)) = alreadyExtracted (producer e refs init)
     \<and> submitted (producer e (fst c) (snd c)) = submitted (producer e refs init)
     \<and> klog (producer e (fst c) (snd c)) = klog (producer e refs init)
     \<and> filter producer_line (errOut (producer e (fst c) (snd c))) = filter producer_line (errOut (producer e refs init))"
  have "?Q (rest, s)"
  proof (rule exec_invariant[OF assms, where P = ?Q])
    show "?Q (refs, init)" by (simp add: init_batch_inv)
  next
    fix x c1 c2 assume q: "?Q c1" and st: "step e dir x c1 = Some c2"
    obtain r1 s1 r2 s2 where c: "c1 = (r1, s1)" "c2 = (r2, s2)" by (cases c1; cases c2) auto
    have "inv_origin e dir s1" using q c by (simp add: batch_inv_def)
    then have lines: "\<forall>(t, as) \<in> set (running s1). \<forall>m. WriteErrOut m \<in> set as \<longrightarrow> \<not> producer_line m"
      by (rule running_lines)
    have "batch_inv e dir (snd c2)" using step_batch_inv[OF st] q by simp
    then show "?Q c2" using step_link[of e dir x r1 s1 r2 s2] lines st q c by simp
  qed
  then show ?thesis by simp
qed

lemma producer_init_lines:
  "filter producer_line (errOut (producer e refs init)) = errOut (producer e refs init)"
proof -
  have "errOut (producer e refs init) = errOut (plan e Map.empty refs)"
    by (simp add: producer_fields init_def)
  then show ?thesis by (simp add: plan_errOut_filter)
qed

lemma batch_planned:
  assumes "exec e dir sched (refs, init) = Some c" "batch_done c"
  shows "alreadyExtracted (snd c) = alreadyExtracted (producer e refs init)"
    and "submitted (snd c) = submitted (producer e refs init)"
    and "klog (snd c) = klog (producer e refs init)"
    and "filter producer_line (errOut (snd c)) = errOut (producer e refs init)"
proof -
  obtain s where c: "c = ([], s)" using assms(2) by (cases c) (simp add: batch_done_def)
  have l: "alreadyExtracted (producer e [] s) = alreadyExtracted (producer e refs init)
     \<and> submitted (producer e [] s) = submitted (producer e refs init)
     \<and> klog (producer e [] s) = klog (producer e refs init)
     \<and> filter producer_line (errOut (producer e [] s)) = filter producer_line (errOut (producer e refs init))"
    using assms(1) unfolding c by (rule exec_link)
  show "alreadyExtracted (snd c) = alreadyExtracted (producer e refs init)" using l c by simp
  show "submitted (snd c) = submitted (producer e refs init)" using l c by simp
  show "klog (snd c) = klog (producer e refs init)" using l c by simp
  show "filter producer_line (errOut (snd c)) = errOut (producer e refs init)"
    using l c by (simp add: producer_init_lines)
qed

lemma task_fails_iff: "task_fails e dir t \<longleftrightarrow> OnceSetHadErrors \<in> set (task_body e dir t)"
  by (cases t) (auto simp: task_fails_def task_body_def split: sum.splits option.splits prod.splits)

lemma task_fails_line:
  assumes "task_fails e dir t"
  shows "\<exists>m. WriteErrOut m \<in> set (task_body e dir t) \<and> names_repo m (fst t)"
proof (rule task_body_cases[of e dir t])
  fix err buf assume "task_body e dir t = [OnceSetHadErrors, WriteErrOut (ErrorCloning (fst t) err buf)]"
  then have "WriteErrOut (ErrorCloning (fst t) err buf) \<in> set (task_body e dir t)
     \<and> names_repo (ErrorCloning (fst t) err buf) (fst t)" by simp
  then show ?thesis by blast
next
  fix err assume "task_body e dir t = [OnceSetHadErrors, WriteErrOut (ErrorCheckingOut (fst t) err [])]"
  then have "WriteErrOut (ErrorCheckingOut (fst t) err []) \<in> set (task_body e dir t)
     \<and> names_repo (ErrorCheckingOut (fst t) err []) (fst t)" by simp
  then show ?thesis by blast
next
  fix path assume "task_body e dir t = [WriteOut (RepoPath path)]"
  then show ?thesis using assms by (simp add: task_fails_iff)
qed

lemma batch_effects:
  assumes "exec e dir sched (refs, init) = Some c" "batch_done c"
    "t \<in> set (submitted (snd c))" "a \<in> set (task_body e dir t)"
  shows "reflected a (snd c)"
proof -
  have "accounted e dir (snd c)" using exec_batch_inv[OF assms(1)] by (simp add: batch_inv_def)
  then show ?thesis using assms(2,3,4) unfolding accounted_def batch_done_def by auto
qed

lemma batch_hadErrors:
  assumes "exec e dir sched (refs, init) = Some c" "batch_done c"
  shows "hadErrors (snd c) \<longleftrightarrow> (\<exists>t \<in> set (submitted (snd c)). task_fails e dir t)"
proof
  assume "hadErrors (snd c)"
  moreover have "inv_origin e dir (snd c)" using exec_batch_inv[OF assms(1)] by (simp add: batch_inv_def)
  ultimately show "\<exists>t \<in> set (submitted (snd c)). task_fails e dir t"
    unfolding inv_origin_def task_fails_iff by blast
next
  assume "\<exists>t \<in> set (submitted (snd c)). task_fails e dir t"
  then obtain t where t: "t \<in> set (submitted (snd c))" "OnceSetHadErrors \<in> set (task_body e dir t)"
    unfolding task_fails_iff by blast
  have "reflected OnceSetHadErrors (snd c)" using batch_effects[OF assms t] .
  then show "hadErrors (snd c)" by (simp add: reflected_def)
qed

lemmas failing_defs = extractGit_def env0_def tagsF_def schedF1_def schedF2_def tag_def init_def
  midF_def finalF_def loop_body_def annotation_def Parallel_def task_body_def batch_done_def Let_def

lemma runF: "extractGit (env0 False tagsF) ''img'' ''src'' (schedF1 @ schedF2) = Some (BatchReturned finalF (Some ErrExit))"
  by (simp add: failing_defs)

lemma execF1: "exec (env0 False tagsF) ''src'' schedF1 (tagsF, init) = Some ([], midF)"
  by (simp add: failing_defs)

lemma stepF1: "step (env0 False tagsF) ''src'' (Work 0) ([], midF) =
    Some ([], midF\<lparr>running := (running midF)[0 := ((''R1'', ''bad''), [WriteErrOut (ErrorCheckingOut ''R1'' ''exit status 1'' [])])]\<rparr>)"
  by (simp add: failing_defs)

lemmas started_defs = env0_def tags2_def tag_def init_def started1_def started2_def
  loop_body_def annotation_def Parallel_def task_body_def Let_def

lemma exec_started1:
  "exec (env0 False tags2) ''src'' [Produce, Start] (tags2, init) = Some ([tag ''C'' ''R2'' ''C2''], started1)"
  by (simp add: started_defs)

lemma step_started2:
  "step (env0 False tags2) ''src'' Produce ([tag ''C'' ''R2'' ''C2''], started1) = Some ([], started2)"
  by (simp add: started_defs)

lemma exec_skipped1:
  "exec (env0 True [tag ''D'' [] []]) ''src'' [Produce] ([tag ''D'' [] []], init) = Some ([], skipped1)"
  by (simp add: env0_def tag_def init_def skipped1_def loop_body_def annotation_def Let_def)

lemma producer_append: "producer e (xs @ ys) s = producer e ys (producer e xs s)"
  by (induction xs arbitrary: s) simp_all

lemma loop_body_map:
  "alreadyExtracted s = alreadyExtracted s' \<Longrightarrow>
     alreadyExtracted (loop_body e ref s) = alreadyExtracted (loop_body e ref s')"
  using loop_body_plan[of e ref s] loop_body_plan[of e ref s'] by simp

lemma step_map_unchanged:
  assumes "step e dir x (refs, s) = Some (refs', s')" "x \<noteq> Produce"
  shows "alreadyExtracted s' = alreadyExtracted s"
  using assms by (cases rule: step_cases) (simp_all add: perform_keeps)

lemma exec_consumed:
  assumes "exec e dir sched (refs, init) = Some (rest, s)"
  shows "\<exists>consumed. refs = consumed @ rest
           \<and> alreadyExtracted s = alreadyExtracted (producer e consumed init)"
proof -
  let ?P = "\<lambda>c. \<exists>consumed. refs = consumed @ fst c
           \<and> alreadyExtracted (snd c) = alreadyExtracted (producer e consumed init)"
  have "?P (rest, s)"
  proof (rule exec_invariant[OF assms, where P = ?P])
    have "refs = [] @ refs \<and> alreadyExtracted init = alreadyExtracted (producer e [] init)" by simp
    then show "?P (refs, init)" by (metis fst_conv snd_conv)
  next
    fix x c1 c2 assume p: "?P c1" and st: "step e dir x c1 = Some c2"
    obtain r1 s1 r2 s2 where c: "c1 = (r1, s1)" "c2 = (r2, s2)" by (cases c1; cases c2) auto
    obtain consumed where con: "refs = consumed @ r1"
        "alreadyExtracted s1 = alreadyExtracted (producer e consumed init)"
      using p c by auto
    have st': "step e dir x (r1, s1) = Some (r2, s2)" using st c by simp
    show "?P c2"
    proof (cases "x = Produce")
      case True
      then obtain ref where r: "r1 = ref # r2" "s2 = loop_body e ref s1"
        using st' by (auto split: list.splits)
      have "alreadyExtracted s2 = alreadyExtracted (loop_body e ref (producer e consumed init))"
        unfolding r using con(2) by (rule loop_body_map)
      then have "refs = (consumed @ [ref]) @ r2
          \<and> alreadyExtracted s2 = alreadyExtracted (producer e (consumed @ [ref]) init)"
        using con(1) r by (simp add: producer_append)
      then show ?thesis unfolding c by (metis fst_conv snd_conv)
    next
      case False
      then have "alreadyExtracted s2 = alreadyExtracted s1" using st' step_map_unchanged by blast
      moreover have "r2 = r1" using st' False by (cases rule: step_cases) auto
      ultimately show ?thesis using con c by auto
    qed
  qed
  then show ?thesis by simp
qed

lemma count_list_filter: "P x \<Longrightarrow> count_list (filter P xs) x = count_list xs x"
  by (induction xs) auto

lemma loop_body_other:
  assumes "\<not> (has_source e p \<and> repo_of e p = R)"
  shows "alreadyExtracted (loop_body e p s) R = alreadyExtracted s R"
    and "filter (\<lambda>t. fst t = R) (submitted (loop_body e p s)) = filter (\<lambda>t. fst t = R) (submitted s)"
    and "count_list (errOut (loop_body e p s)) (WarnDifferentCommits R)
           = count_list (errOut s) (WarnDifferentCommits R)"
  using assms
  by (auto simp: loop_body_def has_source_def repo_of_def commit_of_def Let_def Parallel_def
      split: option.splits)

lemma producer_other:
  assumes "\<forall>p \<in> set ps. \<not> (has_source e p \<and> repo_of e p = R)"
  shows "alreadyExtracted (producer e ps s) R = alreadyExtracted s R
     \<and> filter (\<lambda>t. fst t = R) (submitted (producer e ps s)) = filter (\<lambda>t. fst t = R) (submitted s)
     \<and> count_list (errOut (producer e ps s)) (WarnDifferentCommits R)
           = count_list (errOut s) (WarnDifferentCommits R)"
  using assms
proof (induction ps arbitrary: s)
  case Nil
  then show ?case by simp
next
  case (Cons p ps)
  then have p: "\<not> (has_source e p \<and> repo_of e p = R)" by simp
  show ?case using Cons.IH[of "loop_body e p s"] Cons.prems loop_body_other[OF p, of s] by simp
qed

lemma loop_body_first:
  assumes "has_source e a" "alreadyExtracted s (repo_of e a) = None"
  shows "alreadyExtracted (loop_body e a s) (repo_of e a) = Some (commit_of e a)"
    and "filter (\<lambda>t. fst t = repo_of e a) (submitted (loop_body e a s))
           = filter (\<lambda>t. fst t = repo_of e a) (submitted s) @ [(repo_of e a, commit_of e a)]"
    and "count_list (errOut (loop_body e a s)) (WarnDifferentCommits R)
           = count_list (errOut s) (WarnDifferentCommits R)"
  using assms by (simp_all add: loop_body_fresh loop_body_def has_source_def repo_of_def commit_of_def Let_def Parallel_def)

lemma loop_body_again:
  assumes "has_source e b" "alreadyExtracted s (repo_of e b) = Some c"
  shows "alreadyExtracted (loop_body e b s) (repo_of e b) = Some c"
    and "submitted (loop_body e b s) = submitted s"
    and "count_list (errOut (loop_body e b s)) (WarnDifferentCommits (repo_of e b))
           = count_list (errOut s) (WarnDifferentCommits (repo_of e b)) + (if c \<noteq> commit_of e b then 1 else 0)"
  using assms by (simp_all add: loop_body_def has_source_def repo_of_def commit_of_def Let_def)

lemma producer_two_references:
  assumes a: "has_source e a" and b: "has_source e b" and same: "repo_of e b = repo_of e a"
    and others: "\<forall>p \<in> set (pre @ mid @ post). has_source e p \<longrightarrow> repo_of e p \<noteq> repo_of e a"
  shows "filter (\<lambda>t. fst t = repo_of e a) (submitted (producer e (pre @ a # mid @ b # post) init))
           = [(repo_of e a, commit_of e a)]
     \<and> count_list (errOut (producer e (pre @ a # mid @ b # post) init)) (WarnDifferentCommits (repo_of e a))
           = (if commit_of e b \<noteq> commit_of e a then 1 else 0)"
proof -
  let ?R = "repo_of e a"
  let ?W = "WarnDifferentCommits ?R"
  let ?T = "\<lambda>s. filter (\<lambda>t. fst t = ?R) (submitted s)"
  define s1 where "s1 = producer e pre init"
  define s2 where "s2 = loop_body e a s1"
  define s3 where "s3 = producer e mid s2"
  define s4 where "s4 = loop_body e b s3"
  define s5 where "s5 = producer e post s4"
  have o1: "\<forall>p \<in> set pre. \<not> (has_source e p \<and> repo_of e p = ?R)"
    and o2: "\<forall>p \<in> set mid. \<not> (has_source e p \<and> repo_of e p = ?R)"
    and o3: "\<forall>p \<in> set post. \<not> (has_source e p \<and> repo_of e p = ?R)"
    using others by auto
  have all: "producer e (pre @ a # mid @ b # post) init = s5"
    by (simp add: producer_append s1_def s2_def s3_def s4_def s5_def)
  have p1: "alreadyExtracted s1 ?R = None" "?T s1 = []" "count_list (errOut s1) ?W = 0"
    using producer_other[OF o1, of init] by (simp_all add: s1_def init_def)
  have p2: "alreadyExtracted s2 ?R = Some (commit_of e a)" "?T s2 = [(?R, commit_of e a)]"
      "count_list (errOut s2) ?W = 0"
    using loop_body_first[OF a p1(1)] p1 by (simp_all add: s2_def)
  have p3: "alreadyExtracted s3 ?R = Some (commit_of e a)" "?T s3 = [(?R, commit_of e a)]"
      "count_list (errOut s3) ?W = 0"
    using producer_other[OF o2, of s2] p2 by (simp_all add: s3_def)
  have p3': "alreadyExtracted s3 (repo_of e b) = Some (commit_of e a)" using p3(1) same by simp
  have p4: "?T s4 = [(?R, commit_of e a)]"
      "count_list (errOut s4) ?W = (if commit_of e b \<noteq> commit_of e a then 1 else 0)"
    using loop_body_again[OF b p3'] p3 same by (auto simp: s4_def)
  have p5: "?T s5 = [(?R, commit_of e a)]"
      "count_list (errOut s5) ?W = (if commit_of e b \<noteq> commit_of e a then 1 else 0)"
    using producer_other[OF o3, of s4] p4 by (simp_all add: s5_def)
  show ?thesis unfolding all using p5 by simp
qed



lemma loop_body_load [simp]: "loop_body (e\<lparr>loadReleaseInfo := f\<rparr>) = loop_body e"
  by (rule ext)+ (simp add: loop_body_def)

lemma producer_load [simp]: "producer (e\<lparr>loadReleaseInfo := f\<rparr>) refs s = producer e refs s"
  by (induction refs arbitrary: s) simp_all

lemma task_fails_load [simp]: "task_fails (e\<lparr>loadReleaseInfo := f\<rparr>) = task_fails e"
  by (rule ext)+ (simp add: task_fails_def split: sum.splits)


lemma runC: "extractGit (env0 False tagsC) ''img'' ''src'' schedC = Some (BatchReturned finalC None)"
  by (simp add: example_defs tagsC_def schedC_def finalC_def)


lemma tag_sources:
  "has_source (env0 v refs) (tag n r c) \<longleftrightarrow> r \<noteq> [] \<and> c \<noteq> []"
  "repo_of (env0 v refs) (tag n r c) = r"
  "commit_of (env0 v refs) (tag n r c) = c"
  by (simp_all add: has_source_def repo_of_def commit_of_def annotation_def env0_def tag_def)

lemma default_callback_pair:
  "default_callback vr o' refID d c t (v, st) =
     (Verify vr d c v,
      st\<lparr>callbackCalls := callbackCalls st @ (if ImageMetadataCallback o' then [(d, c)] else []),
         stdout := stdout st @ [payload_line refID (d, c, t)]\<rparr>)"
  by (simp add: default_callback_def Let_def payload_line_def)

lemma fold_default_callback:
  "fold (\<lambda>(d, c, t). default_callback vr o' refID d c t) ms (v, st) =
     (fold (\<lambda>(d, c, t). Verify vr d c) ms v,
      st\<lparr>callbackCalls := callbackCalls st @ (if ImageMetadataCallback o' then map (\<lambda>(d, c, t). (d, c)) ms else []),
         stdout := stdout st @ map (payload_line refID) ms\<rparr>)"
proof (induction ms arbitrary: v st)
  case Nil
  then show ?case by simp
next
  case (Cons m ms)
  obtain d c t where m: "m = (d, c, t)" by (cases m)
  show ?case unfolding m
    by (simp add: Cons.IH default_callback_pair)
qed

lemma Run_default_flow:
  assumes "default_flow e o' refID"
  shows "Run vr e o' = Run_default vr e o' refID"
  using assms by (simp add: default_flow_def Run_def)

lemma Run_default_completed:
  assumes "failure (release_image e) = None"
  shows "Run_default vr e o' refID =
     (let verifier = fold (\<lambda>(d, c, t). Verify vr d c) (metadata (release_image e)) (NewVerifier vr);
          st = start_state\<lparr>callbackCalls :=
                 (if ImageMetadataCallback o' then map (\<lambda>(d, c, t). (d, c)) (metadata (release_image e)) else []),
                 stdout := map (payload_line refID) (metadata (release_image e))\<rparr>
      in if \<not> Verified vr verifier then
            (if \<not> SkipVerification o' then (Some FailedContentVerification, st)
             else (None, st\<lparr>stderr := stderr st @ [WarnError FailedContentVerification]\<rparr>))
          else (None, st))"
  using assms
  by (simp add: Run_default_def extract_Run_def fold_default_callback start_state_def Let_def)







lemmas run_defs = Run_def Run_default_def Run_file_def extract_Run_def default_callback_def
  file_callback_def TarEntryCallback_def start_state_def spec_verifier_def renv0_def image0_def
  opts0_def Let_def

lemma run_mismatch:
  "Run spec_verifier (renv0 ''sha256:bb'') (opts0 False []) =
     (Some FailedContentVerification,
      \<lparr>found = False, stdout = [ExtractedFromDigest ''sha256:aa'' ''2019-06-01T00:00:00Z''],
       stderr = [], callbackCalls = []\<rparr>)"
  by (simp add: run_defs)

lemma run_mismatch_skipped:
  "Run spec_verifier (renv0 ''sha256:bb'') (opts0 True []) =
     (None,
      \<lparr>found = False, stdout = [ExtractedFromDigest ''sha256:aa'' ''2019-06-01T00:00:00Z''],
       stderr = [WarnError FailedContentVerification], callbackCalls = []\<rparr>)"
  by (simp add: run_defs)

lemma run_match:
  "Run spec_verifier (renv0 ''sha256:aa'') (opts0 False []) =
     (None,
      \<lparr>found = False, stdout = [ExtractedFromDigest ''sha256:aa'' ''2019-06-01T00:00:00Z''],
       stderr = [], callbackCalls = []\<rparr>)"
  by (simp add: run_defs)


lemma default_flow0: "default_flow (renv0 c) (opts0 skip []) []"
  by (simp add: default_flow_def renv0_def opts0_def)

lemma failure0: "failure (release_image (renv0 c)) = None"
  by (simp add: renv0_def image0_def)

lemma metadata0: "metadata (release_image (renv0 c)) = [(''sha256:aa'', c, ''2019-06-01T00:00:00Z'')]"
  by (simp add: renv0_def image0_def)

section \<open>The claims\<close>

text \<open>
  C1. For every complete run of \<open>extractGit\<close> on a loaded release, whatever the schedule
  of the workers: the number of tasks submitted to the work queue is the number of
  distinct repositories among the tags that carry both a repository and a commit
  annotation, and every submitted task carries the commit of the first such tag of its
  repository.
\<close>

theorem extractGit_submits_once_per_repository:
  assumes "extractGit e from dir sched = Some (BatchReturned s r)"
    and "loadReleaseInfo e from = Inr refs"
  shows "length (submitted s) = card {repo_of e ref | ref. ref \<in> set refs \<and> has_source e ref}
     \<and> (\<forall>(repo, commit) \<in> set (submitted s).
          \<exists>pre ref post. refs = pre @ ref # post \<and> has_source e ref \<and> repo_of e ref = repo
            \<and> commit_of e ref = commit \<and> (\<forall>p\<in>set pre. has_source e p \<longrightarrow> repo_of e p \<noteq> repo))"
proof -
  obtain c where c: "exec e dir sched (refs, init) = Some c" "batch_done c" "snd c = s"
    using extractGit_returned[OF assms] by blast
  then have sub: "submitted s = first_per_repo {} (sources e refs)"
    using batch_submitted[of e dir sched refs c] by (simp add: batch_done_def)
  have "length (submitted s) = card (fst ` set (sources e refs) - {})"
    unfolding sub by (rule first_per_repo_length) simp
  then have len: "length (submitted s) = card {repo_of e ref | ref. ref \<in> set refs \<and> has_source e ref}"
    by (simp add: sources_repos)
  have "\<exists>pre ref post. refs = pre @ ref # post \<and> has_source e ref \<and> repo_of e ref = repo
            \<and> commit_of e ref = commit \<and> (\<forall>p\<in>set pre. has_source e p \<longrightarrow> repo_of e p \<noteq> repo)"
    if "(repo, commit) \<in> set (submitted s)" for repo commit
  proof -
    from that have "map_of (sources e refs) repo = Some commit"
      unfolding sub using first_per_repo_member by blast
    then show ?thesis by (rule sources_first)
  qed
  with len show ?thesis by blast
qed

theorem extractGit_submits_once_per_repository_witness:
  "extractGit (env0 False tags0) ''img'' ''src'' sched0 = Some (BatchReturned final0 None)
   \<and> loadReleaseInfo (env0 False tags0) ''img'' = Inr tags0
   \<and> length (submitted final0) = 2
   \<and> length (submitted final0) =
       card {repo_of (env0 False tags0) ref | ref. ref \<in> set tags0 \<and> has_source (env0 False tags0) ref}"
proof -
  have h2: "loadReleaseInfo (env0 False tags0) ''img'' = Inr tags0" by (simp add: env0_def)
  show ?thesis
    using extractGit_submits_once_per_repository[OF run0 h2] run0 h2
    by (simp add: final0_def)
qed

text \<open>
  C2. When \<open>Run\<close> reaches the default case and the extraction returns no error, with
  \<open>verifier\<close> the verifier after the calls the metadata callback made of \<open>Verify\<close>, for
  any implementation of the verifier: if \<open>Verified\<close> is false and \<open>SkipVerification\<close> is
  false, \<open>Run\<close> returns the content verification error; if \<open>Verified\<close> is false and
  \<open>SkipVerification\<close> is true, \<open>Run\<close> writes that error as a warning to the error stream,
  and nothing else, and returns nil; if \<open>Verified\<close> is true, \<open>Run\<close> returns nil and writes
  nothing to the error stream.
\<close>

theorem Run_enforces_the_verification_policy:
  assumes "default_flow e o' refID" and "failure (release_image e) = None"
    and "verifier = fold (\<lambda>(d, c, t). Verify vr d c) (metadata (release_image e)) (NewVerifier vr)"
  shows "(\<not> Verified vr verifier \<and> \<not> SkipVerification o' \<longrightarrow>
            fst (Run vr e o') = Some FailedContentVerification)
     \<and> (\<not> Verified vr verifier \<and> SkipVerification o' \<longrightarrow>
            fst (Run vr e o') = None \<and> stderr (snd (Run vr e o')) = [WarnError FailedContentVerification])
     \<and> (Verified vr verifier \<longrightarrow> fst (Run vr e o') = None \<and> stderr (snd (Run vr e o')) = [])"
  unfolding Run_default_flow[OF assms(1)] Run_default_completed[OF assms(2)] assms(3)
  by (simp add: Let_def start_state_def)

theorem Run_enforces_the_verification_policy_witness:
  "default_flow (renv0 ''sha256:bb'') (opts0 False []) []
   \<and> failure (release_image (renv0 ''sha256:bb'')) = None
   \<and> \<not> Verified spec_verifier (fold (\<lambda>(d, c, t). Verify spec_verifier d c)
          (metadata (release_image (renv0 ''sha256:bb''))) (NewVerifier spec_verifier))
   \<and> \<not> SkipVerification (opts0 False [])
   \<and> fst (Run spec_verifier (renv0 ''sha256:bb'') (opts0 False [])) = Some FailedContentVerification
   \<and> SkipVerification (opts0 True [])
   \<and> fst (Run spec_verifier (renv0 ''sha256:bb'') (opts0 True [])) = None
   \<and> stderr (snd (Run spec_verifier (renv0 ''sha256:bb'') (opts0 True []))) = [WarnError FailedContentVerification]
   \<and> Verified spec_verifier (fold (\<lambda>(d, c, t). Verify spec_verifier d c)
          (metadata (release_image (renv0 ''sha256:aa''))) (NewVerifier spec_verifier))
   \<and> fst (Run spec_verifier (renv0 ''sha256:aa'') (opts0 False [])) = None
   \<and> stderr (snd (Run spec_verifier (renv0 ''sha256:aa'') (opts0 False []))) = []"
proof -
  have v1: "\<not> Verified spec_verifier (fold (\<lambda>(d, c, t). Verify spec_verifier d c)
          (metadata (release_image (renv0 ''sha256:bb''))) (NewVerifier spec_verifier))"
    by (simp add: metadata0 spec_verifier_def)
  have v2: "Verified spec_verifier (fold (\<lambda>(d, c, t). Verify spec_verifier d c)
          (metadata (release_image (renv0 ''sha256:aa''))) (NewVerifier spec_verifier))"
    by (simp add: metadata0 spec_verifier_def)
  have s1: "\<not> SkipVerification (opts0 False [])" and s2: "SkipVerification (opts0 True [])"
    by (simp_all add: opts0_def)
  show ?thesis
    using Run_enforces_the_verification_policy[OF default_flow0[of "''sha256:bb''" False] failure0 refl,
        where vr = spec_verifier]
      Run_enforces_the_verification_policy[OF default_flow0[of "''sha256:bb''" True] failure0 refl,
        where vr = spec_verifier]
      Run_enforces_the_verification_policy[OF default_flow0[of "''sha256:aa''" False] failure0 refl,
        where vr = spec_verifier]
      v1 v2 s1 s2 default_flow0 failure0
    by simp
qed

text \<open>
  C3. For every complete run of \<open>extractGit\<close> on a loaded release, whatever the number of
  failing tasks and whatever the order in which the workers move: if at least one
  submitted task fails (its clone or its checkout returns an error), then \<open>hadErrors\<close> is
  true when \<open>Batch\<close> returns, every failing task has written an error line naming its
  repository to the error stream, and \<open>extractGit\<close> returns \<open>kcmdutil.ErrExit\<close>, the error
  that exits non-zero without a message of its own; if no submitted task fails,
  \<open>hadErrors\<close> is false and \<open>extractGit\<close> returns nil.
\<close>

theorem extractGit_reports_every_failure:
  assumes "extractGit e from dir sched = Some (BatchReturned s r)"
    and "loadReleaseInfo e from = Inr refs"
  shows "((\<exists>t \<in> set (submitted s). task_fails e dir t) \<longrightarrow>
            hadErrors s \<and> r = Some ErrExit
            \<and> (\<forall>t \<in> set (submitted s). task_fails e dir t \<longrightarrow>
                 (\<exists>m \<in> set (errOut s). names_repo m (fst t))))
       \<and> ((\<forall>t \<in> set (submitted s). \<not> task_fails e dir t) \<longrightarrow> \<not> hadErrors s \<and> r = None)"
proof -
  obtain c where c: "exec e dir sched (refs, init) = Some c" "batch_done c" "snd c = s"
    and r: "r = (if hadErrors s then Some ErrExit else None)"
    using extractGit_returned[OF assms] by blast
  have had: "hadErrors s \<longleftrightarrow> (\<exists>t \<in> set (submitted s). task_fails e dir t)"
    using batch_hadErrors[OF c(1,2)] c(3) by simp
  have "\<exists>m \<in> set (errOut s). names_repo m (fst t)"
    if t: "t \<in> set (submitted s)" "task_fails e dir t" for t
  proof -
    obtain m where m: "WriteErrOut m \<in> set (task_body e dir t)" "names_repo m (fst t)"
      using task_fails_line[OF t(2)] by blast
    have "reflected (WriteErrOut m) s" using batch_effects[OF c(1,2) _ m(1)] t(1) c(3) by simp
    then show ?thesis using m(2) by (auto simp: reflected_def)
  qed
  then show ?thesis using had r by auto
qed

theorem extractGit_reports_every_failure_witness:
  "extractGit (env0 False tagsF) ''img'' ''src'' (schedF1 @ schedF2) = Some (BatchReturned finalF (Some ErrExit))
   \<and> loadReleaseInfo (env0 False tagsF) ''img'' = Inr tagsF
   \<and> (''R3'', ''C3'') \<in> set (submitted finalF) \<and> task_fails (env0 False tagsF) ''src'' (''R3'', ''C3'')
   \<and> hadErrors finalF \<and> (\<exists>m \<in> set (errOut finalF). names_repo m ''R3'')
   \<and> extractGit (env0 False tags0) ''img'' ''src'' sched0 = Some (BatchReturned final0 None)
   \<and> loadReleaseInfo (env0 False tags0) ''img'' = Inr tags0
   \<and> submitted final0 = [(''R1'', ''C1''), (''R2'', ''C2'')]
   \<and> \<not> task_fails (env0 False tags0) ''src'' (''R1'', ''C1'')
   \<and> \<not> task_fails (env0 False tags0) ''src'' (''R2'', ''C2'')
   \<and> \<not> hadErrors final0"
proof -
  have h2: "loadReleaseInfo (env0 False tagsF) ''img'' = Inr tagsF" by (simp add: env0_def)
  have h3: "(''R3'', ''C3'') \<in> set (submitted finalF) \<and> task_fails (env0 False tagsF) ''src'' (''R3'', ''C3'')"
    by (simp add: finalF_def task_fails_def env0_def)
  have g2: "loadReleaseInfo (env0 False tags0) ''img'' = Inr tags0" by (simp add: env0_def)
  have g3: "\<forall>t \<in> set (submitted final0). \<not> task_fails (env0 False tags0) ''src'' t"
    by (simp add: final0_def task_fails_def env0_def)
  show ?thesis
    using extractGit_reports_every_failure[OF runF h2] extractGit_reports_every_failure[OF run0 g2]
      runF run0 h2 h3 g2 g3
    by (simp add: finalF_def final0_def)
qed

text \<open>
  C4. When exactly two tags of the release, each carrying both annotations, name the same
  repository, every complete run of \<open>extractGit\<close> submits exactly one task for that
  repository, with the commit of the first of the two, and writes the warning about
  different commits for that repository exactly once if the two commits differ and not
  at all if they are equal.
\<close>

theorem two_references_to_one_repository:
  assumes "extractGit e from dir sched = Some (BatchReturned s r)"
    and "loadReleaseInfo e from = Inr (pre @ a # mid @ b # post)"
    and "has_source e a" and "has_source e b" and "repo_of e b = repo_of e a"
    and "\<forall>p \<in> set (pre @ mid @ post). has_source e p \<longrightarrow> repo_of e p \<noteq> repo_of e a"
  shows "filter (\<lambda>t. fst t = repo_of e a) (submitted s) = [(repo_of e a, commit_of e a)]
     \<and> count_list (errOut s) (WarnDifferentCommits (repo_of e a))
           = (if commit_of e b \<noteq> commit_of e a then 1 else 0)"
proof -
  obtain c where c: "exec e dir sched (pre @ a # mid @ b # post, init) = Some c" "batch_done c" "snd c = s"
    using extractGit_returned[OF assms(1,2)] by blast
  have sub: "submitted s = submitted (producer e (pre @ a # mid @ b # post) init)"
    using batch_planned(2)[OF c(1,2)] c(3) by simp
  have "filter producer_line (errOut s) = errOut (producer e (pre @ a # mid @ b # post) init)"
    using batch_planned(4)[OF c(1,2)] c(3) by simp
  then have "count_list (errOut (producer e (pre @ a # mid @ b # post) init)) (WarnDifferentCommits (repo_of e a))
      = count_list (errOut s) (WarnDifferentCommits (repo_of e a))"
    using count_list_filter[of producer_line "WarnDifferentCommits (repo_of e a)" "errOut s"] by simp
  then show ?thesis using producer_two_references[OF assms(3,4,5,6)] sub by simp
qed

theorem two_references_to_one_repository_witness:
  "extractGit (env0 False tagsC) ''img'' ''src'' schedC = Some (BatchReturned finalC None)
   \<and> loadReleaseInfo (env0 False tagsC) ''img'' = Inr ([] @ tag ''A'' ''R1'' ''C1'' # [] @ tag ''B'' ''R1'' ''C9'' # [])
   \<and> has_source (env0 False tagsC) (tag ''A'' ''R1'' ''C1'')
   \<and> has_source (env0 False tagsC) (tag ''B'' ''R1'' ''C9'')
   \<and> filter (\<lambda>t. fst t = ''R1'') (submitted finalC) = [(''R1'', ''C1'')]
   \<and> count_list (errOut finalC) (WarnDifferentCommits ''R1'') = 1
   \<and> extractGit (env0 False tags0) ''img'' ''src'' sched0 = Some (BatchReturned final0 None)
   \<and> loadReleaseInfo (env0 False tags0) ''img''
       = Inr ([] @ tag ''A'' ''R1'' ''C1'' # [] @ tag ''B'' ''R1'' ''C1'' # [tag ''C'' ''R2'' ''C2'', tag ''D'' [] []])
   \<and> filter (\<lambda>t. fst t = ''R1'') (submitted final0) = [(''R1'', ''C1'')]
   \<and> count_list (errOut final0) (WarnDifferentCommits ''R1'') = 0"
proof -
  let ?e = "env0 False tagsC"
  have h2: "loadReleaseInfo ?e ''img'' = Inr ([] @ tag ''A'' ''R1'' ''C1'' # [] @ tag ''B'' ''R1'' ''C9'' # [])"
    by (simp add: env0_def tagsC_def)
  have h3: "has_source ?e (tag ''A'' ''R1'' ''C1'')" and h4: "has_source ?e (tag ''B'' ''R1'' ''C9'')"
    and h5: "repo_of ?e (tag ''B'' ''R1'' ''C9'') = repo_of ?e (tag ''A'' ''R1'' ''C1'')"
    by (simp_all add: tag_sources)
  have h6: "\<forall>p \<in> set ([] @ [] @ []). has_source ?e p \<longrightarrow> repo_of ?e p \<noteq> repo_of ?e (tag ''A'' ''R1'' ''C1'')"
    by simp
  let ?g = "env0 False tags0"
  have g2: "loadReleaseInfo ?g ''img''
       = Inr ([] @ tag ''A'' ''R1'' ''C1'' # [] @ tag ''B'' ''R1'' ''C1'' # [tag ''C'' ''R2'' ''C2'', tag ''D'' [] []])"
    by (simp add: env0_def tags0_def)
  have g3: "has_source ?g (tag ''A'' ''R1'' ''C1'')" and g4: "has_source ?g (tag ''B'' ''R1'' ''C1'')"
    and g5: "repo_of ?g (tag ''B'' ''R1'' ''C1'') = repo_of ?g (tag ''A'' ''R1'' ''C1'')"
    by (simp_all add: tag_sources)
  have g6: "\<forall>p \<in> set ([] @ [] @ [tag ''C'' ''R2'' ''C2'', tag ''D'' [] []]).
      has_source ?g p \<longrightarrow> repo_of ?g p \<noteq> repo_of ?g (tag ''A'' ''R1'' ''C1'')"
    by (simp add: tag_sources)
  show ?thesis
    using two_references_to_one_repository[OF runC h2 h3 h4 h5 h6]
      two_references_to_one_repository[OF run0 g2 g3 g4 g5 g6]
      runC run0 h2 h3 h4 g2
    by (simp add: tag_sources)
qed

text \<open>
  C5, as amended. When \<open>Run\<close> reaches the default case, the extraction returns no error
  and makes one call of the metadata callback with a declared digest that differs from
  the digest of the content, verification is not skipped, and the verifier reports a
  single call as verified exactly when its digests are equal: \<open>Run\<close> returns the content
  verification error and writes nothing to the error stream, and standard output holds
  the one line \<open>Extracted release payload ... created at ...\<close>, which the callback wrote
  before the verifier was consulted.
\<close>

theorem mismatch_fails_after_the_payload_line:
  assumes "default_flow e o' refID" and "failure (release_image e) = None"
    and "metadata (release_image e) = [(dgst, contentDigest, created)]"
    and "dgst \<noteq> contentDigest" and "\<not> SkipVerification o'"
    and "Verified vr (Verify vr dgst contentDigest (NewVerifier vr)) = (dgst = contentDigest)"
  shows "fst (Run vr e o') = Some FailedContentVerification
     \<and> stdout (snd (Run vr e o')) = [payload_line refID (dgst, contentDigest, created)]
     \<and> stderr (snd (Run vr e o')) = []"
  unfolding Run_default_flow[OF assms(1)] Run_default_completed[OF assms(2)]
  using assms(3,4,5,6) by (simp add: Let_def start_state_def)

theorem mismatch_fails_after_the_payload_line_witness:
  "default_flow (renv0 ''sha256:bb'') (opts0 False []) []
   \<and> failure (release_image (renv0 ''sha256:bb'')) = None
   \<and> metadata (release_image (renv0 ''sha256:bb'')) = [(''sha256:aa'', ''sha256:bb'', ''2019-06-01T00:00:00Z'')]
   \<and> ''sha256:aa'' \<noteq> ''sha256:bb''
   \<and> \<not> SkipVerification (opts0 False [])
   \<and> Verified spec_verifier (Verify spec_verifier ''sha256:aa'' ''sha256:bb'' (NewVerifier spec_verifier))
        = (''sha256:aa'' = ''sha256:bb'')
   \<and> fst (Run spec_verifier (renv0 ''sha256:bb'') (opts0 False [])) = Some FailedContentVerification
   \<and> stdout (snd (Run spec_verifier (renv0 ''sha256:bb'') (opts0 False [])))
        = [ExtractedFromDigest ''sha256:aa'' ''2019-06-01T00:00:00Z'']
   \<and> stderr (snd (Run spec_verifier (renv0 ''sha256:bb'') (opts0 False []))) = []"
proof -
  have d: "''sha256:aa'' \<noteq> ''sha256:bb''" by simp
  have s: "\<not> SkipVerification (opts0 False [])" by (simp add: opts0_def)
  have v: "Verified spec_verifier (Verify spec_verifier ''sha256:aa'' ''sha256:bb'' (NewVerifier spec_verifier))
        = (''sha256:aa'' = ''sha256:bb'')" by (simp add: spec_verifier_def)
  show ?thesis
    using mismatch_fails_after_the_payload_line[OF default_flow0 failure0 metadata0 d s v]
      default_flow0 failure0 metadata0 s v
    by (simp add: payload_line_def)
qed

text \<open>
  C5 as stated fails: on the example image, whose content digest is not the declared
  one, \<open>Run\<close> returns the error, and standard output holds the line about the extracted
  payload.
\<close>

theorem mismatch_prints_the_payload_line_counterexample:
  "default_flow (renv0 ''sha256:bb'') (opts0 False []) []
   \<and> metadata (release_image (renv0 ''sha256:bb'')) = [(''sha256:aa'', ''sha256:bb'', ''2019-06-01T00:00:00Z'')]
   \<and> ''sha256:aa'' \<noteq> ''sha256:bb''
   \<and> \<not> SkipVerification (opts0 False [])
   \<and> fst (Run spec_verifier (renv0 ''sha256:bb'') (opts0 False [])) = Some FailedContentVerification
   \<and> stdout (snd (Run spec_verifier (renv0 ''sha256:bb'') (opts0 False [])))
        = [ExtractedFromDigest ''sha256:aa'' ''2019-06-01T00:00:00Z'']"
proof -
  have s: "\<not> SkipVerification (opts0 False [])" by (simp add: opts0_def)
  show ?thesis using default_flow0 metadata0 s by (simp add: run_mismatch)
qed




text \<open>
  C7, as amended. In every state the batch can reach, a step of a worker (taking a task
  from the queue, an effect of a running task, its return) leaves \<open>alreadyExtracted\<close>
  as it is, and the map holds exactly what the loop alone computes over the tags it has
  consumed: only the loop, on the calling thread, reads and writes the map. Planning and
  submitting are interleaved, so the loop may still write the map while earlier tasks run.
\<close>

theorem only_the_loop_writes_alreadyExtracted:
  assumes "exec e dir sched (refs, init) = Some (rest, s)"
    and "step e dir x (rest, s) = Some (rest', s')"
  shows "(x \<noteq> Produce \<longrightarrow> alreadyExtracted s' = alreadyExtracted s)
     \<and> (\<exists>consumed. refs = consumed @ rest
           \<and> alreadyExtracted s = alreadyExtracted (producer e consumed init))"
  using step_map_unchanged[OF assms(2)] exec_consumed[OF assms(1)] by blast

theorem only_the_loop_writes_alreadyExtracted_witness:
  "exec (env0 False tagsF) ''src'' schedF1 (tagsF, init) = Some ([], midF)
   \<and> step (env0 False tagsF) ''src'' (Work 0) ([], midF) =
       Some ([], midF\<lparr>running := (running midF)[0 := ((''R1'', ''bad''), [WriteErrOut (ErrorCheckingOut ''R1'' ''exit status 1'' [])])]\<rparr>)
   \<and> Work 0 \<noteq> Produce
   \<and> alreadyExtracted (midF\<lparr>running := (running midF)[0 := ((''R1'', ''bad''), [WriteErrOut (ErrorCheckingOut ''R1'' ''exit status 1'' [])])]\<rparr>)
       = alreadyExtracted midF"
  using only_the_loop_writes_alreadyExtracted[OF execF1 stepF1] execF1 stepF1 by simp

text \<open>
  C7 as stated fails: with two tags built from two repositories, the first task is
  running when the second iteration of the loop writes the map.
\<close>

theorem alreadyExtracted_written_after_start_counterexample:
  "exec (env0 False tags2) ''src'' [Produce, Start] (tags2, init) = Some ([tag ''C'' ''R2'' ''C2''], started1)
   \<and> running started1 = [((''R1'', ''C1''), [WriteOut (RepoPath ''src/R1'')])]
   \<and> step (env0 False tags2) ''src'' Produce ([tag ''C'' ''R2'' ''C2''], started1) = Some ([], started2)
   \<and> alreadyExtracted started1 ''R2'' = None
   \<and> alreadyExtracted started2 ''R2'' = Some ''C2''"
  using exec_started1 step_started2 by (simp add: started1_def started2_def)

text \<open>
  C8. \<open>hadErrors\<close> starts false; in every state the batch can reach, under any
  interleaving, no step takes it from true to false, and the assignment
  \<open>hadErrors = true\<close> has been executed exactly once if the flag is set and never
  otherwise: the guard lets only the first failing task through.
\<close>

theorem hadErrors_only_set_and_only_once:
  assumes "exec e dir sched (refs, init) = Some (rest, s)"
    and "step e dir x (rest, s) = Some (rest', s')"
  shows "\<not> hadErrors init
     \<and> (hadErrors s \<longrightarrow> hadErrors s')
     \<and> flagWrites s = (if hadErrors s then 1 else 0)
     \<and> flagWrites s' = (if hadErrors s' then 1 else 0)"
proof -
  have "inv_flag s" using exec_batch_inv[OF assms(1)] by (simp add: batch_inv_def)
  then show ?thesis using step_inv_flag[OF assms(2)] by (simp add: inv_flag_def init_def)
qed

theorem hadErrors_only_set_and_only_once_witness:
  "exec (env0 False tagsF) ''src'' schedF1 (tagsF, init) = Some ([], midF)
   \<and> step (env0 False tagsF) ''src'' (Work 0) ([], midF) =
       Some ([], midF\<lparr>running := (running midF)[0 := ((''R1'', ''bad''), [WriteErrOut (ErrorCheckingOut ''R1'' ''exit status 1'' [])])]\<rparr>)
   \<and> hadErrors midF \<and> flagWrites midF = 1
   \<and> hadErrors (midF\<lparr>running := (running midF)[0 := ((''R1'', ''bad''), [WriteErrOut (ErrorCheckingOut ''R1'' ''exit status 1'' [])])]\<rparr>)
   \<and> flagWrites (midF\<lparr>running := (running midF)[0 := ((''R1'', ''bad''), [WriteErrOut (ErrorCheckingOut ''R1'' ''exit status 1'' [])])]\<rparr>) = 1"
  using hadErrors_only_set_and_only_once[OF execF1 stepF1] execF1 stepF1 by (simp add: midF_def)

text \<open>
  C9. In every state the batch can reach, for any number of tags and of submitted tasks,
  at most \<open>maxParallel\<close> tasks are running, and \<open>maxParallel\<close> is the 8 that
  \<open>extractGit\<close> passes to \<open>workqueue.New\<close>; when the loop has returned without
  submitting a task, the batch is over at once and no error is flagged.
\<close>

theorem at_most_maxParallel_running:
  assumes "exec e dir sched (refs, init) = Some (rest, s)"
  shows "length (running s) \<le> maxParallel s \<and> maxParallel s = 8
     \<and> (rest = [] \<and> submitted s = [] \<longrightarrow> batch_done (rest, s) \<and> \<not> hadErrors s)"
proof -
  have inv: "inv_bound s" "inv_origin e dir s"
    using exec_batch_inv[OF assms] by (simp_all add: batch_inv_def)
  have "queued s = [] \<and> running s = [] \<and> \<not> hadErrors s" if "submitted s = []"
  proof -
    have q: "set (queued s) = {}" and h: "\<not> hadErrors s"
      using inv(2) that unfolding inv_origin_def by auto
    have "x \<notin> set (running s)" for x
      using inv(2) that unfolding inv_origin_def by (cases x) auto
    then have "running s = []" by (cases "running s") auto
    then show ?thesis using q h by simp
  qed
  then show ?thesis using inv(1) by (auto simp: inv_bound_def batch_done_def)
qed

theorem at_most_maxParallel_running_witness:
  "exec (env0 False tagsF) ''src'' schedF1 (tagsF, init) = Some ([], midF)
   \<and> length (running midF) = 3 \<and> maxParallel midF = 8
   \<and> exec (env0 True [tag ''D'' [] []]) ''src'' [Produce] ([tag ''D'' [] []], init) = Some ([], skipped1)
   \<and> submitted skipped1 = [] \<and> batch_done ([], skipped1) \<and> \<not> hadErrors skipped1"
  using at_most_maxParallel_running[OF execF1] at_most_maxParallel_running[OF exec_skipped1]
    execF1 exec_skipped1
  by (simp add: midF_def skipped1_def)



end
